theory Spec2Isabelle
  imports Main
begin

section \<open>Memory, as the detector sees it\<close>

text \<open>
  The detector of \<^verbatim>\<open>dgsh_util.c\<close> works on the bytes of one file, mapped into memory,
  through raw pointers. A pointer into the mapping is modelled by its offset from the start
  of the mapping, a natural number; the mapped bytes are a list. A read at an offset that is
  not mapped has no defined result in C: it is the value \<open>Inl OutOfBounds\<close> here, and it ends
  the run, as a branch of its own. Offsets are added as natural numbers, with no
  wrap-around: a sum that leaves the mapping is outside the list, whatever a machine that
  wraps pointers at 64 bits would make of it.
\<close>

type_synonym byte = char

datatype fault = OutOfBounds | BadAddress

fun thenf :: "fault + 'a \<Rightarrow> ('a \<Rightarrow> fault + 'b) \<Rightarrow> fault + 'b" where
  "thenf (Inl e) f = Inl e"
| "thenf (Inr v) f = f v"

definition rd8 :: "byte list \<Rightarrow> nat \<Rightarrow> fault + byte" where
  "rd8 data off = (if off < length data then Inr (data ! off) else Inl OutOfBounds)"

definition rd_bytes :: "byte list \<Rightarrow> nat \<Rightarrow> nat \<Rightarrow> fault + byte list" where
  "rd_bytes data off n =
     (if off + n \<le> length data then Inr (take n (drop off data)) else Inl OutOfBounds)"

text \<open>
  The fields of the ELF structures are unsigned integers of 2, 4 or 8 bytes, read in the
  byte order of the host, which is taken to be little-endian. A field is read as its value,
  a natural number below \<open>256 ^ n\<close>; the code does no arithmetic on fields other than adding
  them to a pointer.
\<close>

fun le_val :: "byte list \<Rightarrow> nat" where
  "le_val [] = 0"
| "le_val (b # bs) = of_char b + 256 * le_val bs"

definition rd_le :: "byte list \<Rightarrow> nat \<Rightarrow> nat \<Rightarrow> fault + nat" where
  "rd_le data off n = thenf (rd_bytes data off n) (\<lambda>bs. Inr (le_val bs))"

subsection \<open>The C library functions the detector calls\<close>

text \<open>
  \<^verbatim>\<open>memcmp(p, s, n) == 0\<close>, where \<open>s\<close> holds the \<open>n\<close> bytes compared: all \<open>n\<close> bytes at \<open>p\<close>
  are read.
\<close>

definition memcmp0 :: "byte list \<Rightarrow> nat \<Rightarrow> byte list \<Rightarrow> fault + bool" where
  "memcmp0 data p s = thenf (rd_bytes data p (length s)) (\<lambda>bs. Inr (bs = s))"

text \<open>
  \<^verbatim>\<open>strcmp(p, lit) == 0\<close> for a string literal \<open>lit\<close>: the bytes at \<open>p\<close> are compared one by
  one with the bytes of the literal and its terminator, up to the first difference.
  \<open>strcmp_from\<close> takes the literal with its terminator.
\<close>

definition cstr :: "string \<Rightarrow> byte list" where
  "cstr s = s @ [CHR 0x00]"

fun strcmp_from :: "byte list \<Rightarrow> nat \<Rightarrow> byte list \<Rightarrow> fault + bool" where
  "strcmp_from data p [] = Inr True"
| "strcmp_from data p (c # cs) =
     thenf (rd8 data p) (\<lambda>b. if b = c then strcmp_from data (p + 1) cs else Inr False)"

definition strcmp0 :: "byte list \<Rightarrow> nat \<Rightarrow> string \<Rightarrow> fault + bool" where
  "strcmp0 data p lit = strcmp_from data p (cstr lit)"

text \<open>
  \<^verbatim>\<open>memchr(data + p, c, n)\<close>: the offset of the first of the \<open>n\<close> bytes from \<open>p\<close> that
  equals \<open>c\<close>, or \<open>None\<close> for \<^verbatim>\<open>NULL\<close>.
\<close>

fun memchr :: "byte list \<Rightarrow> nat \<Rightarrow> byte \<Rightarrow> nat \<Rightarrow> fault + nat option" where
  "memchr data p c n =
     (if n = 0 then Inr None
      else thenf (rd8 data p) (\<lambda>b.
        if b = c then Inr (Some p) else memchr data (p + 1) c (n - 1)))"

declare memchr.simps [simp del]

section \<open>The script scanner\<close>

definition MAX_LINE_LEN :: nat where
  "MAX_LINE_LEN = 1024"

definition newline :: byte where
  "newline = CHR 0x0A"

text \<open>
  \<^verbatim>\<open>linenstr(haystack, needle, hlen)\<close>. The loop
  \<^verbatim>\<open>while (nlen < hlen-- && *haystack != '\n')\<close> is \<open>linenstr_loop\<close>, with \<open>p\<close> the offset
  of \<^verbatim>\<open>haystack\<close>; the result is the offset of the match, or \<open>None\<close> for \<^verbatim>\<open>NULL\<close>.
\<close>

fun linenstr_loop :: "byte list \<Rightarrow> nat \<Rightarrow> byte list \<Rightarrow> nat \<Rightarrow> fault + nat option" where
  "linenstr_loop data p needle hlen =
     (if length needle < hlen then
        thenf (rd8 data p) (\<lambda>c.
          if c \<noteq> newline then
            thenf (memcmp0 data p needle) (\<lambda>eq.
              if eq then Inr (Some p) else linenstr_loop data (p + 1) needle (hlen - 1))
          else Inr None)
      else Inr None)"

declare linenstr_loop.simps [simp del]

definition linenstr :: "byte list \<Rightarrow> string \<Rightarrow> nat \<Rightarrow> fault + nat option" where
  "linenstr data needle hlen = linenstr_loop data 0 needle hlen"

text \<open>
  \<^verbatim>\<open>is_magic_script_dgsh_program(data, len)\<close>. \<^verbatim>\<open>magic\<close> is a \<^verbatim>\<open>char\<close> array of 7 bytes,
  the 6 of the marker and its terminator: \<^verbatim>\<open>sizeof(magic)\<close> is 7.
\<close>

definition magic :: string where
  "magic = ''#!dgsh''"

definition sizeof_magic :: nat where
  "sizeof_magic = length magic + 1"

definition is_magic_script_dgsh_program :: "byte list \<Rightarrow> nat \<Rightarrow> fault + int" where
  "is_magic_script_dgsh_program data len =
     thenf (memchr data 0 newline len) (\<lambda>nl.
       case nl of
         None \<Rightarrow> Inr 0
       | Some k \<Rightarrow>
           (let line2 = k + 1; len' = len - line2 in
            if len' < sizeof_magic then Inr 0
            else thenf (memcmp0 data line2 magic) (\<lambda>eq. Inr (if eq then 1 else 0))))"

definition is_script_dgsh_program :: "byte list \<Rightarrow> nat \<Rightarrow> fault + int" where
  "is_script_dgsh_program data len0 =
     (let len = (if len0 < MAX_LINE_LEN then len0 else MAX_LINE_LEN) in
      thenf (linenstr data ''dgsh-wrap'' len) (\<lambda>r1.
        if r1 \<noteq> None then Inr 1 else
      thenf (linenstr data ''--dgsh'' len) (\<lambda>r2.
        if r2 \<noteq> None then Inr 1 else
      thenf (linenstr data ''env dgsh'' len) (\<lambda>r3.
        if r3 \<noteq> None then Inr 1 else
      thenf (is_magic_script_dgsh_program data len) (\<lambda>r4.
        Inr (if r4 \<noteq> 0 then 1 else 0))))))"

section \<open>The ELF walker\<close>

text \<open>
  The structures of \<^verbatim>\<open><elf.h>\<close>, as the System V ABI lays them out. A field is its offset
  in the structure and its size in bytes. The two walkers \<^verbatim>\<open>has_dgsh_section_32\<close> and
  \<^verbatim>\<open>has_dgsh_section_64\<close> have the same text and differ in the structures only, so one
  definition over the class stands for both.
\<close>

datatype elf_class = ELFCLASS32 | ELFCLASS64

type_synonym field = "nat \<times> nat"

definition ELFMAG :: "byte list" where
  "ELFMAG = [CHR 0x7F, CHR ''E'', CHR ''L'', CHR ''F'']"

definition EI_CLASS :: nat where
  "EI_CLASS = 4"

fun e_shoff :: "elf_class \<Rightarrow> field" where
  "e_shoff ELFCLASS32 = (32, 4)"
| "e_shoff ELFCLASS64 = (40, 8)"

fun e_shnum :: "elf_class \<Rightarrow> field" where
  "e_shnum ELFCLASS32 = (48, 2)"
| "e_shnum ELFCLASS64 = (60, 2)"

fun e_shstrndx :: "elf_class \<Rightarrow> field" where
  "e_shstrndx ELFCLASS32 = (50, 2)"
| "e_shstrndx ELFCLASS64 = (62, 2)"

fun sizeof_Ehdr :: "elf_class \<Rightarrow> nat" where
  "sizeof_Ehdr ELFCLASS32 = 52"
| "sizeof_Ehdr ELFCLASS64 = 64"

fun sizeof_Shdr :: "elf_class \<Rightarrow> nat" where
  "sizeof_Shdr ELFCLASS32 = 40"
| "sizeof_Shdr ELFCLASS64 = 64"

fun sh_name :: "elf_class \<Rightarrow> field" where
  "sh_name c = (0, 4)"

fun sh_offset :: "elf_class \<Rightarrow> field" where
  "sh_offset ELFCLASS32 = (16, 4)"
| "sh_offset ELFCLASS64 = (24, 8)"

fun sh_size :: "elf_class \<Rightarrow> field" where
  "sh_size ELFCLASS32 = (20, 4)"
| "sh_size ELFCLASS64 = (32, 8)"

definition n_namesz :: field where
  "n_namesz = (0, 4)"

definition sizeof_Nhdr :: nat where
  "sizeof_Nhdr = 12"

definition rd_field :: "byte list \<Rightarrow> nat \<Rightarrow> field \<Rightarrow> fault + nat" where
  "rd_field data base f = rd_le data (base + fst f) (snd f)"

text \<open>\<^verbatim>\<open>shdr[i].f\<close>, for the section header table at offset \<open>shdr\<close>.\<close>

definition rd_shdr :: "elf_class \<Rightarrow> byte list \<Rightarrow> nat \<Rightarrow> nat \<Rightarrow> field \<Rightarrow> fault + nat" where
  "rd_shdr c data shdr i f = rd_field data (shdr + i * sizeof_Shdr c) f"

definition DGSH_NAME :: string where
  "DGSH_NAME = ''DSpinellis/dgsh''"

definition sizeof_DGSH_NAME :: nat where
  "sizeof_DGSH_NAME = length (cstr DGSH_NAME)"

text \<open>
  The body of the loop of \<^verbatim>\<open>has_dgsh_section_32\<close> and \<^verbatim>\<open>has_dgsh_section_64\<close> at index
  \<open>i\<close>: \<open>True\<close> is \<^verbatim>\<open>return 1\<close>, \<open>False\<close> is the next iteration (by \<^verbatim>\<open>continue\<close> or by the
  end of the body).
\<close>

definition dgsh_section_at ::
    "elf_class \<Rightarrow> nat \<Rightarrow> nat \<Rightarrow> byte list \<Rightarrow> nat \<Rightarrow> fault + bool" where
  "dgsh_section_at c shdr strTab data i =
     thenf (rd_shdr c data shdr i (sh_name c)) (\<lambda>name.
     thenf (strcmp0 data (strTab + name) ''.note.ident'') (\<lambda>same.
       if \<not> same then Inr False else
     thenf (rd_shdr c data shdr i (sh_offset c)) (\<lambda>note.
     thenf (rd_field data note n_namesz) (\<lambda>namesz.
       if namesz = sizeof_DGSH_NAME
       then memcmp0 data (note + sizeof_Nhdr) (cstr DGSH_NAME)
       else Inr False))))"

function has_dgsh_section_from ::
    "elf_class \<Rightarrow> nat \<Rightarrow> nat \<Rightarrow> nat \<Rightarrow> byte list \<Rightarrow> nat \<Rightarrow> fault + int" where
  "has_dgsh_section_from c shdr strTab shNum data i =
     (if i < shNum then
        thenf (dgsh_section_at c shdr strTab data i) (\<lambda>found.
          if found then Inr 1
          else has_dgsh_section_from c shdr strTab shNum data (i + 1))
      else Inr 0)"
  by pat_completeness auto
termination
  by (relation "measure (\<lambda>(c, shdr, strTab, shNum, data, i). shNum - i)") auto

declare has_dgsh_section_from.simps [simp del]

definition has_dgsh_section_32 :: "nat \<Rightarrow> nat \<Rightarrow> nat \<Rightarrow> byte list \<Rightarrow> fault + int" where
  "has_dgsh_section_32 shdr strTab shNum data =
     has_dgsh_section_from ELFCLASS32 shdr strTab shNum data 0"

definition has_dgsh_section_64 :: "nat \<Rightarrow> nat \<Rightarrow> nat \<Rightarrow> byte list \<Rightarrow> fault + int" where
  "has_dgsh_section_64 shdr strTab shNum data =
     has_dgsh_section_from ELFCLASS64 shdr strTab shNum data 0"

text \<open>
  \<^verbatim>\<open>is_elf_dgsh_program(data)\<close>. It has no length parameter: every offset comes from the
  header and is used as it is.
\<close>

definition is_elf_dgsh_program :: "byte list \<Rightarrow> fault + int" where
  "is_elf_dgsh_program data =
     thenf (memcmp0 data 0 ELFMAG) (\<lambda>is_elf.
       if \<not> is_elf then Inr 0 else
     thenf (rd8 data EI_CLASS) (\<lambda>arch.
       if of_char arch = (1::nat) then
         thenf (rd_field data 0 (e_shoff ELFCLASS32)) (\<lambda>shdr.
         thenf (rd_field data 0 (e_shstrndx ELFCLASS32)) (\<lambda>ndx.
         thenf (rd_shdr ELFCLASS32 data shdr ndx (sh_offset ELFCLASS32)) (\<lambda>strtab.
         thenf (rd_field data 0 (e_shnum ELFCLASS32)) (\<lambda>shnum.
           has_dgsh_section_32 shdr strtab shnum data))))
       else if of_char arch = (2::nat) then
         thenf (rd_field data 0 (e_shoff ELFCLASS64)) (\<lambda>shdr.
         thenf (rd_field data 0 (e_shstrndx ELFCLASS64)) (\<lambda>ndx.
         thenf (rd_shdr ELFCLASS64 data shdr ndx (sh_offset ELFCLASS64)) (\<lambda>strtab.
         thenf (rd_field data 0 (e_shnum ELFCLASS64)) (\<lambda>shnum.
           has_dgsh_section_64 shdr strtab shnum data))))
       else Inr 0))"

section \<open>The loader and the entry point\<close>

text \<open>
  What \<^verbatim>\<open>open\<close>, \<^verbatim>\<open>lseek\<close> and \<^verbatim>\<open>mmap\<close> do is the operating system's part. A path names a
  file that \<^verbatim>\<open>open\<close> refuses, one that opens and that \<^verbatim>\<open>mmap\<close> refuses (a directory), or a
  regular file with its bytes. \<^verbatim>\<open>mmap\<close> returns \<^verbatim>\<open>MAP_FAILED\<close>, which is \<^verbatim>\<open>(void *) -1\<close> and
  not \<^verbatim>\<open>NULL\<close>, when it fails, as it does for a length of 0; otherwise it maps whole pages,
  and the bytes between the end of the file and the end of its last page read as zero.
  The test \<^verbatim>\<open>data == NULL\<close> of line 171 is in the model, and no result of \<open>mmap\<close> meets it;
  the read through \<^verbatim>\<open>MAP_FAILED\<close> that follows a failure is the fault \<open>BadAddress\<close>.
\<close>

datatype fs_entry = Unopenable | Unmappable | Regular "byte list"

datatype pointer = NULL | MAP_FAILED | Mem "byte list"

record os =
  pagesize :: nat
  files :: "string \<Rightarrow> fs_entry"

definition page_fill :: "nat \<Rightarrow> nat \<Rightarrow> nat" where
  "page_fill ps n = (ps - n mod ps) mod ps"

fun lseek_end :: "fs_entry \<Rightarrow> nat" where
  "lseek_end (Regular bs) = length bs"
| "lseek_end f = 0"

fun mmap :: "nat \<Rightarrow> fs_entry \<Rightarrow> nat \<Rightarrow> pointer" where
  "mmap ps (Regular bs) len =
     (if len = 0 then MAP_FAILED
      else Mem (take len bs @ replicate (page_fill ps len) (CHR 0x00)))"
| "mmap ps f len = MAP_FAILED"

text \<open>
  Lines 173 to 176 of \<^verbatim>\<open>is_dgsh_program\<close>: the choice between the script scanner and
  the ELF walker, on the mapped bytes.
\<close>

definition classify_mapped :: "byte list \<Rightarrow> nat \<Rightarrow> fault + int" where
  "classify_mapped data file_size =
     thenf (memcmp0 data 0 ''#!'') (\<lambda>shebang.
       if shebang then is_script_dgsh_program data file_size
       else is_elf_dgsh_program data)"

definition is_dgsh_program :: "os \<Rightarrow> string \<Rightarrow> fault + int" where
  "is_dgsh_program sys path =
     (case files sys path of
        Unopenable \<Rightarrow> Inr 0
      | f \<Rightarrow>
          (let file_size = lseek_end f in
           case mmap (pagesize sys) f file_size of
             NULL \<Rightarrow> Inr 0
           | MAP_FAILED \<Rightarrow> Inl BadAddress
           | Mem data \<Rightarrow> classify_mapped data file_size))"

section \<open>What the claims speak of\<close>

text \<open>
  The definitions of this section are not code of the detector. They name the properties
  of a buffer that the statements below need: the value of a field where it lies in the
  buffer, the bytes at an offset, and an ELF image whose header fields all point inside
  the buffer.
\<close>

definition bytes_at :: "byte list \<Rightarrow> nat \<Rightarrow> byte list \<Rightarrow> bool" where
  "bytes_at data p s \<longleftrightarrow> p + length s \<le> length data \<and> take (length s) (drop p data) = s"

definition fld :: "byte list \<Rightarrow> nat \<Rightarrow> field \<Rightarrow> nat" where
  "fld data base f = le_val (take (snd f) (drop (base + fst f) data))"

definition shdr_fld :: "elf_class \<Rightarrow> byte list \<Rightarrow> nat \<Rightarrow> field \<Rightarrow> nat" where
  "shdr_fld c data i f = fld data (fld data 0 (e_shoff c) + i * sizeof_Shdr c) f"

fun class_byte :: "elf_class \<Rightarrow> nat" where
  "class_byte ELFCLASS32 = 1"
| "class_byte ELFCLASS64 = 2"

definition strtab_off :: "elf_class \<Rightarrow> byte list \<Rightarrow> nat" where
  "strtab_off c data = shdr_fld c data (fld data 0 (e_shstrndx c)) (sh_offset c)"

definition strtab_size :: "elf_class \<Rightarrow> byte list \<Rightarrow> nat" where
  "strtab_size c data = shdr_fld c data (fld data 0 (e_shstrndx c)) (sh_size c)"

text \<open>Section \<open>i\<close> has the name \<open>lit\<close> in the string table, terminator included.\<close>

definition section_named :: "elf_class \<Rightarrow> byte list \<Rightarrow> nat \<Rightarrow> string \<Rightarrow> bool" where
  "section_named c data i lit \<longleftrightarrow>
     bytes_at data (strtab_off c data + shdr_fld c data i (sh_name c)) (cstr lit)"

text \<open>
  The first note record of section \<open>i\<close> has the name size \<open>namesz\<close> and the bytes \<open>name\<close>
  after its header.
\<close>

definition note_name_is :: "elf_class \<Rightarrow> byte list \<Rightarrow> nat \<Rightarrow> nat \<Rightarrow> byte list \<Rightarrow> bool" where
  "note_name_is c data i namesz name \<longleftrightarrow>
     fld data (shdr_fld c data i (sh_offset c)) n_namesz = namesz \<and>
     bytes_at data (shdr_fld c data i (sh_offset c) + sizeof_Nhdr) name"

definition dgsh_note_section :: "elf_class \<Rightarrow> byte list \<Rightarrow> nat \<Rightarrow> bool" where
  "dgsh_note_section c data i \<longleftrightarrow>
     (if section_named c data i ''.note.ident''
      then note_name_is c data i sizeof_DGSH_NAME (cstr DGSH_NAME) else False)"

text \<open>The first note record of section \<open>i\<close>, header and name, lies in the section, and the
  section in the buffer.\<close>

definition note_in_section :: "elf_class \<Rightarrow> byte list \<Rightarrow> nat \<Rightarrow> bool" where
  "note_in_section c data i \<longleftrightarrow>
     (let off = shdr_fld c data i (sh_offset c); sz = shdr_fld c data i (sh_size c) in
      off + sz \<le> length data \<and> sizeof_Nhdr \<le> sz \<and>
      sizeof_Nhdr + fld data off n_namesz \<le> sz)"

text \<open>
  A well-formed ELF image of class \<open>c\<close>: the header is there, the section header table
  lies in the buffer, the string table is a section of the table, lies in the buffer and
  ends with a terminator, every section name starts in the string table, and a section
  named \<^verbatim>\<open>.note.ident\<close> holds its first note record.
\<close>

definition wf_elf :: "elf_class \<Rightarrow> byte list \<Rightarrow> bool" where
  "wf_elf c data \<longleftrightarrow>
     sizeof_Ehdr c \<le> length data \<and> bytes_at data 0 ELFMAG \<and>
     of_char (data ! EI_CLASS) = class_byte c \<and>
     fld data 0 (e_shoff c) + fld data 0 (e_shnum c) * sizeof_Shdr c \<le> length data \<and>
     fld data 0 (e_shstrndx c) < fld data 0 (e_shnum c) \<and>
     0 < strtab_size c data \<and>
     strtab_off c data + strtab_size c data \<le> length data \<and>
     data ! (strtab_off c data + strtab_size c data - 1) = CHR 0x00 \<and>
     (\<forall>i \<in> set [0..<fld data 0 (e_shnum c)].
        shdr_fld c data i (sh_name c) < strtab_size c data \<and>
        (if section_named c data i ''.note.ident'' then note_in_section c data i else True))"

text \<open>The bytes after the first newline of a window.\<close>

definition second_line :: "byte list \<Rightarrow> byte list" where
  "second_line w = drop 1 (dropWhile (\<lambda>b. b \<noteq> newline) w)"

text \<open>
  \<open>stays a b\<close>: where the run \<open>a\<close> returns a value, the run \<open>b\<close> returns the same one. It
  relates a run on a buffer to the run on memory that extends the buffer.
\<close>

definition stays :: "fault + 'a \<Rightarrow> fault + 'a \<Rightarrow> bool" where
  "stays a b \<longleftrightarrow> (\<forall>r. a = Inr r \<longrightarrow> b = Inr r)"


text \<open>
  The loop of \<^verbatim>\<open>has_dgsh_section_32\<close> and \<^verbatim>\<open>has_dgsh_section_64\<close> with a bound on the
  number of times its body runs: \<open>None\<close> where the bound is reached and the loop would go
  on.
\<close>

fun has_dgsh_section_fuel ::
    "nat \<Rightarrow> elf_class \<Rightarrow> nat \<Rightarrow> nat \<Rightarrow> nat \<Rightarrow> byte list \<Rightarrow> nat \<Rightarrow> (fault + int) option" where
  "has_dgsh_section_fuel 0 c shdr strTab shNum data i =
     (if i < shNum then None else Some (Inr 0))"
| "has_dgsh_section_fuel (Suc k) c shdr strTab shNum data i =
     (if i < shNum then
        (case dgsh_section_at c shdr strTab data i of
           Inl e \<Rightarrow> Some (Inl e)
         | Inr found \<Rightarrow>
             if found then Some (Inr 1)
             else has_dgsh_section_fuel k c shdr strTab shNum data (i + 1))
      else Some (Inr 0))"

subsection \<open>Inputs for the examples\<close>

text \<open>A system with pages of 4096 bytes, where every path names \<open>f\<close>.\<close>

definition sys_with :: "fs_entry \<Rightarrow> os" where
  "sys_with f = \<lparr>pagesize = 4096, files = (\<lambda>path. f)\<rparr>"

text \<open>The same with pages of 16384 bytes.\<close>

definition sys_16k :: "fs_entry \<Rightarrow> os" where
  "sys_16k f = \<lparr>pagesize = 16384, files = (\<lambda>path. f)\<rparr>"

text \<open>Scripts.\<close>

definition plain_script :: "byte list" where
  "plain_script = ''#!/bin/sh'' @ [newline] @ ''nothing special'' @ [newline]"

definition marker_script :: "byte list" where
  "marker_script = ''#!/bin/sh'' @ [newline] @ ''#!dgsh extra'' @ [newline]"



definition wrap_at_end :: "byte list" where
  "wrap_at_end = ''#!/bin/sh dgsh-wrap''"

definition wrap_on_second_line :: "byte list" where
  "wrap_on_second_line = ''#!/bin/sh'' @ [newline] @ ''echo dgsh-wrap'' @ [newline]"

text \<open>Files that are neither scripts nor ELF images of class 1 or 2.\<close>

definition short_magic :: "byte list" where
  "short_magic = [CHR 0x7F, CHR ''E'', CHR ''L'']"

definition png_blob :: "byte list" where
  "png_blob = [CHR 0x89, CHR ''P'', CHR ''N'', CHR ''G'', CHR 0x0D, CHR 0x0A]"

definition elf_class_3 :: "byte list" where
  "elf_class_3 = ELFMAG @ [CHR 0x03, CHR 0x01, CHR 0x01, CHR 0x00]"

text \<open>
  ELF images: a header, three section headers (the null section, \<^verbatim>\<open>.note.ident\<close> and
  \<^verbatim>\<open>.shstrtab\<close>), the string table and one note record. \<open>le_bytes n v\<close> are the \<open>n\<close> bytes
  of the value \<open>v\<close>, lowest first.
\<close>

fun le_bytes :: "nat \<Rightarrow> nat \<Rightarrow> byte list" where
  "le_bytes 0 v = []"
| "le_bytes (Suc n) v = char_of (v mod 256) # le_bytes n (v div 256)"

definition zeros :: "nat \<Rightarrow> byte list" where
  "zeros n = replicate n (CHR 0x00)"

definition ehdr64 :: "nat \<Rightarrow> nat \<Rightarrow> nat \<Rightarrow> byte list" where
  "ehdr64 shoff shnum shstrndx =
     ELFMAG @ [CHR 0x02] @ zeros 35 @ le_bytes 8 shoff @ zeros 12 @
     le_bytes 2 shnum @ le_bytes 2 shstrndx"

definition shdr64 :: "nat \<Rightarrow> nat \<Rightarrow> nat \<Rightarrow> byte list" where
  "shdr64 name off sz = le_bytes 4 name @ zeros 20 @ le_bytes 8 off @ le_bytes 8 sz @ zeros 24"

definition ehdr32 :: "nat \<Rightarrow> nat \<Rightarrow> nat \<Rightarrow> byte list" where
  "ehdr32 shoff shnum shstrndx =
     ELFMAG @ [CHR 0x01] @ zeros 27 @ le_bytes 4 shoff @ zeros 12 @
     le_bytes 2 shnum @ le_bytes 2 shstrndx"

definition shdr32 :: "nat \<Rightarrow> nat \<Rightarrow> nat \<Rightarrow> byte list" where
  "shdr32 name off sz = le_bytes 4 name @ zeros 12 @ le_bytes 4 off @ le_bytes 4 sz @ zeros 16"

definition nhdr :: "nat \<Rightarrow> byte list" where
  "nhdr namesz = le_bytes 4 namesz @ le_bytes 4 0 @ le_bytes 4 1"

definition shstrtab :: "byte list" where
  "shstrtab = cstr [] @ cstr ''.note.ident'' @ cstr ''.shstrtab''"

definition elf64_image :: "nat \<Rightarrow> nat \<Rightarrow> nat \<Rightarrow> byte list \<Rightarrow> byte list" where
  "elf64_image shnum shstrndx namesz name =
     ehdr64 64 shnum shstrndx @
     shdr64 0 0 0 @ shdr64 1 280 (12 + length name) @ shdr64 13 256 23 @
     shstrtab @ zeros 1 @ nhdr namesz @ name"

definition elf32_image :: "nat \<Rightarrow> byte list \<Rightarrow> byte list" where
  "elf32_image namesz name =
     ehdr32 52 3 2 @
     shdr32 0 0 0 @ shdr32 1 196 (12 + length name) @ shdr32 13 172 23 @
     shstrtab @ zeros 1 @ nhdr namesz @ name"

text \<open>An image with the note of a compatible program, in both classes.\<close>

definition dgsh_elf64 :: "byte list" where
  "dgsh_elf64 = elf64_image 3 2 16 (cstr DGSH_NAME)"

definition dgsh_elf32 :: "byte list" where
  "dgsh_elf32 = elf32_image 16 (cstr DGSH_NAME)"

text \<open>The same image with a name size of 17, and with one byte of the name changed.\<close>

definition namesz17_elf64 :: "byte list" where
  "namesz17_elf64 = elf64_image 3 2 17 (cstr DGSH_NAME @ zeros 4)"

definition other_name_elf64 :: "byte list" where
  "other_name_elf64 = elf64_image 3 2 16 (cstr ''DSpinellis/dgsH'')"


text \<open>A header alone, of 64 bytes, whose section header table is said to start at 8192.\<close>

definition shoff_past_end_elf64 :: "byte list" where
  "shoff_past_end_elf64 = ehdr64 8192 1 0"

section \<open>Reads inside the buffer\<close>

lemma thenf_Inr_iff: "thenf m f = Inr r \<longleftrightarrow> (\<exists>v. m = Inr v \<and> f v = Inr r)"
  by (cases m) auto

lemma rd8_Inr_iff: "rd8 data p = Inr v \<longleftrightarrow> p < length data \<and> v = data ! p"
  by (auto simp: rd8_def)

lemma rd_bytes_Inr_iff:
  "rd_bytes data p n = Inr bs \<longleftrightarrow> p + n \<le> length data \<and> bs = take n (drop p data)"
  by (auto simp: rd_bytes_def)

lemma rd8_in: "p < length data \<Longrightarrow> rd8 data p = Inr (data ! p)"
  by (simp add: rd8_def)

lemma rd_bytes_in: "p + n \<le> length data \<Longrightarrow> rd_bytes data p n = Inr (take n (drop p data))"
  by (simp add: rd_bytes_def)

lemma memcmp0_in:
  "p + length s \<le> length data \<Longrightarrow> memcmp0 data p s = Inr (take (length s) (drop p data) = s)"
  by (simp add: memcmp0_def rd_bytes_in)

lemma memcmp0_Inr_iff:
  "memcmp0 data p s = Inr r \<longleftrightarrow> p + length s \<le> length data \<and> r = (take (length s) (drop p data) = s)"
  by (auto simp: memcmp0_def thenf_Inr_iff rd_bytes_Inr_iff)

lemma rd_le_in: "p + n \<le> length data \<Longrightarrow> rd_le data p n = Inr (le_val (take n (drop p data)))"
  by (simp add: rd_le_def rd_bytes_in)

text \<open>Memory that extends the buffer: a run that stayed inside the buffer is unchanged.\<close>

lemma rd8_ext: "rd8 data p = Inr v \<Longrightarrow> rd8 (data @ ext) p = Inr v"
  by (auto simp: rd8_def nth_append split: if_splits)

lemma rd_bytes_ext: "rd_bytes data p n = Inr bs \<Longrightarrow> rd_bytes (data @ ext) p n = Inr bs"
  by (auto simp: rd_bytes_def split: if_splits)

lemma memcmp0_ext: "memcmp0 data p s = Inr r \<Longrightarrow> memcmp0 (data @ ext) p s = Inr r"
  by (auto simp: memcmp0_def thenf_Inr_iff dest: rd_bytes_ext)

lemma rd_le_ext: "rd_le data p n = Inr v \<Longrightarrow> rd_le (data @ ext) p n = Inr v"
  by (auto simp: rd_le_def thenf_Inr_iff dest: rd_bytes_ext)

lemma rd_field_ext: "rd_field data b f = Inr v \<Longrightarrow> rd_field (data @ ext) b f = Inr v"
  by (simp add: rd_field_def rd_le_ext)

lemma rd_shdr_ext: "rd_shdr c data s i f = Inr v \<Longrightarrow> rd_shdr c (data @ ext) s i f = Inr v"
  by (simp add: rd_shdr_def rd_field_ext)

lemma strcmp_from_ext:
  "strcmp_from data p cs = Inr r \<Longrightarrow> strcmp_from (data @ ext) p cs = Inr r"
proof (induction cs arbitrary: p)
  case Nil
  then show ?case by simp
next
  case (Cons c cs)
  then show ?case
    by (auto simp: thenf_Inr_iff split: if_splits dest: rd8_ext)
qed

lemma strcmp0_ext: "strcmp0 data p lit = Inr r \<Longrightarrow> strcmp0 (data @ ext) p lit = Inr r"
  by (simp add: strcmp0_def strcmp_from_ext)

lemma memchr_ext: "memchr data p c n = Inr r \<Longrightarrow> memchr (data @ ext) p c n = Inr r"
proof (induction data p c n rule: memchr.induct)
  case (1 data p c n)
  show ?case
  proof (cases "n = 0")
    case True
    with "1.prems" show ?thesis by (simp add: memchr.simps)
  next
    case False
    from "1.prems" False obtain b where b: "rd8 data p = Inr b"
      and rest: "(if b = c then Inr (Some p) else memchr data (p + 1) c (n - 1)) = Inr r"
      by (subst (asm) memchr.simps) (auto simp: thenf_Inr_iff)
    have b': "rd8 (data @ ext) p = Inr b" using b by (rule rd8_ext)
    show ?thesis
    proof (cases "b = c")
      case True
      with rest b' False show ?thesis by (subst memchr.simps) simp
    next
      case neq: False
      with rest have "memchr data (p + 1) c (n - 1) = Inr r" by simp
      with "1.IH" [OF False, of b] neq have "memchr (data @ ext) (p + 1) c (n - 1) = Inr r"
        by simp
      with b' False neq show ?thesis by (subst memchr.simps) simp
    qed
  qed
qed

lemma linenstr_loop_ext:
  "linenstr_loop data p needle hlen = Inr r \<Longrightarrow> linenstr_loop (data @ ext) p needle hlen = Inr r"
proof (induction data p needle hlen rule: linenstr_loop.induct)
  case (1 data p needle hlen)
  show ?case
  proof (cases "length needle < hlen")
    case False
    with "1.prems" show ?thesis by (simp add: linenstr_loop.simps)
  next
    case True
    from "1.prems" True obtain c where c: "rd8 data p = Inr c"
      and rest: "(if c \<noteq> newline then
            thenf (memcmp0 data p needle) (\<lambda>eq.
              if eq then Inr (Some p) else linenstr_loop data (p + 1) needle (hlen - 1))
          else Inr None) = Inr r"
      by (subst (asm) linenstr_loop.simps) (auto simp: thenf_Inr_iff)
    have c': "rd8 (data @ ext) p = Inr c" using c by (rule rd8_ext)
    show ?thesis
    proof (cases "c = newline")
      case True
      with rest c' \<open>length needle < hlen\<close> show ?thesis by (subst linenstr_loop.simps) simp
    next
      case nonl: False
      with rest obtain eq where eq: "memcmp0 data p needle = Inr eq"
        and rest': "(if eq then Inr (Some p) else linenstr_loop data (p + 1) needle (hlen - 1)) = Inr r"
        by (auto simp: thenf_Inr_iff)
      have eq': "memcmp0 (data @ ext) p needle = Inr eq" using eq by (rule memcmp0_ext)
      show ?thesis
      proof (cases eq)
        case True
        with rest' c' eq' nonl \<open>length needle < hlen\<close> show ?thesis
          by (subst linenstr_loop.simps) simp
      next
        case False
        with rest' have "linenstr_loop data (p + 1) needle (hlen - 1) = Inr r" by simp
        with "1.IH" [OF True, of c eq] nonl False
        have "linenstr_loop (data @ ext) (p + 1) needle (hlen - 1) = Inr r" by simp
        with c' eq' nonl False \<open>length needle < hlen\<close> show ?thesis
          by (subst linenstr_loop.simps) simp
      qed
    qed
  qed
qed

lemma take_drop_Suc_nth:
  "p < length xs \<Longrightarrow> take (Suc n) (drop p xs) = xs ! p # take n (drop (Suc p) xs)"
  by (simp add: Cons_nth_drop_Suc [symmetric])

lemma memchr_in:
  "p + n \<le> length data \<Longrightarrow>
   memchr data p c n =
     Inr (if c \<in> set (take n (drop p data))
          then Some (p + length (takeWhile (\<lambda>b. b \<noteq> c) (take n (drop p data))))
          else None)"
proof (induction data p c n rule: memchr.induct)
  case (1 data p c n)
  show ?case
  proof (cases "n = 0")
    case True
    then show ?thesis by (simp add: memchr.simps)
  next
    case False
    then obtain m where n: "n = Suc m" by (cases n) auto
    with "1.prems" have p: "p < length data" by simp
    have td: "take n (drop p data) = data ! p # take m (drop (Suc p) data)"
      using p n by (simp add: take_drop_Suc_nth)
    show ?thesis
    proof (cases "data ! p = c")
      case True
      with p n td show ?thesis by (subst memchr.simps) (simp add: rd8_in)
    next
      case neq: False
      have "memchr data (p + 1) c (n - 1) =
        Inr (if c \<in> set (take (n - 1) (drop (p + 1) data))
          then Some (p + 1 + length (takeWhile (\<lambda>b. b \<noteq> c) (take (n - 1) (drop (p + 1) data))))
          else None)"
        using "1.IH" [OF False, of "data ! p"] neq "1.prems" n by simp
      with p n td neq show ?thesis by (subst memchr.simps) (auto simp: rd8_in)
    qed
  qed
qed

lemma linenstr_loop_in:
  "p + hlen \<le> length data \<Longrightarrow> \<exists>r. linenstr_loop data p needle hlen = Inr r"
proof (induction data p needle hlen rule: linenstr_loop.induct)
  case (1 data p needle hlen)
  show ?case
  proof (cases "length needle < hlen")
    case False
    then show ?thesis by (simp add: linenstr_loop.simps)
  next
    case True
    with "1.prems" have p: "p < length data" and m: "p + length needle \<le> length data"
      by auto
    show ?thesis
    proof (cases "data ! p \<noteq> newline \<and> take (length needle) (drop p data) \<noteq> needle")
      case False
      with True p m show ?thesis
        by (subst linenstr_loop.simps) (auto simp: rd8_in memcmp0_in)
    next
      case go: True
      have "\<exists>r. linenstr_loop data (p + 1) needle (hlen - 1) = Inr r"
        using "1.IH" [OF True, of "data ! p" False] go "1.prems" True by simp
      with True p m go show ?thesis
        by (subst linenstr_loop.simps) (auto simp: rd8_in memcmp0_in)
    qed
  qed
qed

lemma linenstr_loop_Some:
  "linenstr_loop data p needle hlen = Inr (Some q) \<Longrightarrow>
   p \<le> q \<and> q + length needle < p + hlen \<and> q + length needle \<le> length data \<and>
   take (length needle) (drop q data) = needle \<and>
   (\<forall>j. p \<le> j \<and> j \<le> q \<longrightarrow> data ! j \<noteq> newline)"
proof (induction data p needle hlen rule: linenstr_loop.induct)
  case (1 data p needle hlen)
  from "1.prems" have lt: "length needle < hlen"
    by (subst (asm) linenstr_loop.simps) (auto split: if_splits)
  from "1.prems" lt obtain c where c: "rd8 data p = Inr c"
    and rest: "(if c \<noteq> newline then
            thenf (memcmp0 data p needle) (\<lambda>eq.
              if eq then Inr (Some p) else linenstr_loop data (p + 1) needle (hlen - 1))
          else Inr None) = Inr (Some q)"
    by (subst (asm) linenstr_loop.simps) (auto simp: thenf_Inr_iff)
  from rest have nonl: "c \<noteq> newline" by (auto split: if_splits)
  from c have p: "p < length data" and cp: "c = data ! p" by (auto simp: rd8_Inr_iff)
  from rest nonl obtain eq where eq: "memcmp0 data p needle = Inr eq"
    and rest': "(if eq then Inr (Some p) else linenstr_loop data (p + 1) needle (hlen - 1)) = Inr (Some q)"
    by (auto simp: thenf_Inr_iff)
  show ?case
  proof (cases eq)
    case True
    with rest' have "q = p" by simp
    with eq True lt nonl cp show ?thesis
      by (auto simp: memcmp0_Inr_iff)
  next
    case False
    with rest' have "linenstr_loop data (p + 1) needle (hlen - 1) = Inr (Some q)" by simp
    from "1.IH" [OF lt, of c eq, OF nonl False this]
    have ih: "p + 1 \<le> q" "q + length needle < p + 1 + (hlen - 1)"
      "q + length needle \<le> length data"
      "take (length needle) (drop q data) = needle"
      "\<forall>j. p + 1 \<le> j \<and> j \<le> q \<longrightarrow> data ! j \<noteq> newline"
      by auto
    have "\<forall>j. p \<le> j \<and> j \<le> q \<longrightarrow> data ! j \<noteq> newline"
    proof (intro allI impI)
      fix j assume "p \<le> j \<and> j \<le> q"
      then consider "j = p" | "p + 1 \<le> j \<and> j \<le> q" by linarith
      then show "data ! j \<noteq> newline"
        using nonl cp ih(5) by cases auto
    qed
    with ih lt show ?thesis by auto
  qed
qed

lemma linenstr_loop_no_match:
  assumes "p + hlen \<le> length data"
    and "\<forall>q. p \<le> q \<and> q + length needle < p + hlen \<longrightarrow>
           take (length needle) (drop q data) \<noteq> needle"
  shows "linenstr_loop data p needle hlen = Inr None"
proof -
  from linenstr_loop_in [OF assms(1)] obtain r
    where r: "linenstr_loop data p needle hlen = Inr r" by blast
  show ?thesis
  proof (cases r)
    case None
    with r show ?thesis by simp
  next
    case (Some q)
    with r linenstr_loop_Some [of data p needle hlen q] assms(2) show ?thesis by blast
  qed
qed

lemma staysD: "stays a b \<Longrightarrow> a = Inr r \<Longrightarrow> b = Inr r"
  by (simp add: stays_def)

lemma stays_refl: "stays a a"
  by (simp add: stays_def)

lemma stays_thenf:
  "stays m m' \<Longrightarrow> (\<And>v. m = Inr v \<Longrightarrow> stays (f v) (f' v)) \<Longrightarrow> stays (thenf m f) (thenf m' f')"
  by (cases m) (auto simp: stays_def)

lemma stays_if:
  "(c \<Longrightarrow> stays a a') \<Longrightarrow> (\<not> c \<Longrightarrow> stays b b') \<Longrightarrow>
   stays (if c then a else b) (if c then a' else b')"
  by simp

lemma stays_case_option:
  "stays a a' \<Longrightarrow> (\<And>k. stays (f k) (f' k)) \<Longrightarrow>
   stays (case x of None \<Rightarrow> a | Some k \<Rightarrow> f k) (case x of None \<Rightarrow> a' | Some k \<Rightarrow> f' k)"
  by (cases x) simp_all

lemma linenstr_ext: "stays (linenstr data needle hlen) (linenstr (data @ ext) needle hlen)"
  by (simp add: stays_def linenstr_def linenstr_loop_ext)

lemma memchr_stays: "stays (memchr data p c n) (memchr (data @ ext) p c n)"
  by (simp add: stays_def memchr_ext)

lemma memcmp0_stays: "stays (memcmp0 data p s) (memcmp0 (data @ ext) p s)"
  by (simp add: stays_def memcmp0_ext)

lemma is_magic_ext:
  "stays (is_magic_script_dgsh_program data len) (is_magic_script_dgsh_program (data @ ext) len)"
  unfolding is_magic_script_dgsh_program_def Let_def
  by (intro stays_thenf stays_case_option stays_if memchr_stays memcmp0_stays stays_refl)

lemma is_script_stays:
  "stays (is_script_dgsh_program data len) (is_script_dgsh_program (data @ ext) len)"
  unfolding is_script_dgsh_program_def Let_def
  by (intro stays_thenf stays_if linenstr_ext is_magic_ext stays_refl)

lemma is_script_ext:
  "is_script_dgsh_program data len = Inr r \<Longrightarrow> is_script_dgsh_program (data @ ext) len = Inr r"
  using is_script_stays by (rule staysD)

lemma is_magic_in:
  assumes "len \<le> length data"
  shows "is_magic_script_dgsh_program data len =
    Inr (if newline \<in> set (take len data) \<and>
            sizeof_magic \<le> length (second_line (take len data)) \<and>
            take (length magic) (second_line (take len data)) = magic
         then 1 else 0)"
proof -
  let ?w = "take len data"
  let ?k = "length (takeWhile (\<lambda>b. b \<noteq> newline) ?w)"
  have mc: "memchr data 0 newline len =
     Inr (if newline \<in> set ?w then Some ?k else None)"
    using memchr_in [of 0 len data newline] assms by simp
  show ?thesis
  proof (cases "newline \<in> set ?w")
    case False
    with mc show ?thesis by (simp add: is_magic_script_dgsh_program_def)
  next
    case True
    have dw: "dropWhile (\<lambda>b. b \<noteq> newline) ?w = drop ?k ?w"
      by (rule dropWhile_eq_drop)
    have sl: "second_line ?w = drop (?k + 1) ?w"
      by (simp add: second_line_def dw)
    have lw: "length ?w = len" using assms by simp
    have lsl: "length (second_line ?w) = len - (?k + 1)"
      unfolding sl using lw by simp
    show ?thesis
    proof (cases "len - (?k + 1) < sizeof_magic")
      case short: True
      with mc True lsl show ?thesis
        by (simp add: is_magic_script_dgsh_program_def Let_def)
    next
      case long: False
      then have fit: "?k + 1 + length magic \<le> len"
        by (simp add: sizeof_magic_def)
      with assms have fit': "?k + 1 + length magic \<le> length data" by simp
      have "take (length magic) (drop (?k + 1) ?w) = take (length magic) (drop (?k + 1) data)"
        using fit by (simp add: drop_take min_def)
      with sl have eq: "take (length magic) (second_line ?w) = take (length magic) (drop (?k + 1) data)"
        by simp
      from mc True long lsl fit' eq show ?thesis
        by (simp add: is_magic_script_dgsh_program_def Let_def memcmp0_in)
    qed
  qed
qed

lemma linenstr_in: "hlen \<le> length data \<Longrightarrow> \<exists>r. linenstr data needle hlen = Inr r"
  using linenstr_loop_in [of 0 hlen data needle] by (simp add: linenstr_def)

lemma is_script_in:
  assumes "min len MAX_LINE_LEN \<le> length data"
  shows "is_script_dgsh_program data len = Inr 0 \<or> is_script_dgsh_program data len = Inr 1"
proof -
  let ?l = "if len < MAX_LINE_LEN then len else MAX_LINE_LEN"
  have l: "?l \<le> length data" using assms by (simp add: min_def split: if_splits)
  obtain r1 r2 r3 where r: "linenstr data ''dgsh-wrap'' ?l = Inr r1"
    "linenstr data ''--dgsh'' ?l = Inr r2" "linenstr data ''env dgsh'' ?l = Inr r3"
    using linenstr_in [OF l] by metis
  obtain r4 where r4: "is_magic_script_dgsh_program data ?l = Inr r4"
    using is_magic_in [OF l] by simp
  show ?thesis
    unfolding is_script_dgsh_program_def Let_def using r r4 by simp
qed

lemma is_script_window:
  assumes "min len MAX_LINE_LEN \<le> length data"
  shows "is_script_dgsh_program (take MAX_LINE_LEN data) len = is_script_dgsh_program data len"
proof -
  have "min len MAX_LINE_LEN \<le> length (take MAX_LINE_LEN data)"
    using assms by simp
  from is_script_in [OF this] obtain r where
    r: "is_script_dgsh_program (take MAX_LINE_LEN data) len = Inr r" by blast
  from is_script_ext [OF this, of "drop MAX_LINE_LEN data"]
  have "is_script_dgsh_program data len = Inr r" by simp
  with r show ?thesis by simp
qed

lemma rd_field_in:
  "base + fst f + snd f \<le> length data \<Longrightarrow> rd_field data base f = Inr (fld data base f)"
  by (simp add: rd_field_def fld_def rd_le_in)

lemma strcmp_from_terminated:
  assumes "p \<le> z" "z < length data" "data ! z = CHR 0x00" "CHR 0x00 \<notin> set s"
  shows "strcmp_from data p (s @ [CHR 0x00]) = Inr (bytes_at data p (s @ [CHR 0x00]))"
  using assms
proof (induction s arbitrary: p)
  case Nil
  then have p: "p < length data" by simp
  then show ?case
    by (simp add: rd8_in bytes_at_def take_drop_Suc_nth [of p data 0, simplified])
next
  case (Cons c s)
  then have p: "p < length data" by simp
  from Cons.prems have c0: "c \<noteq> CHR 0x00" and s0: "CHR 0x00 \<notin> set s" by auto
  have td: "take (Suc (Suc (length s))) (drop p data) =
      data ! p # take (Suc (length s)) (drop (Suc p) data)"
    using p by (rule take_drop_Suc_nth)
  show ?case
  proof (cases "data ! p = c")
    case False
    with p td show ?thesis by (simp add: rd8_in bytes_at_def)
  next
    case True
    with c0 Cons.prems have "p \<noteq> z" by auto
    with Cons.prems have "Suc p \<le> z" by simp
    from Cons.IH [OF this Cons.prems(2,3) s0]
    have "strcmp_from data (Suc p) (s @ [CHR 0x00]) = Inr (bytes_at data (Suc p) (s @ [CHR 0x00]))" .
    with p True td show ?thesis
      by (auto simp: rd8_in bytes_at_def)
  qed
qed

lemma has_dgsh_section_from_eq:
  assumes "\<And>j. i \<le> j \<Longrightarrow> j < n \<Longrightarrow> dgsh_section_at c shdr st data j = Inr (P j)"
  shows "has_dgsh_section_from c shdr st n data i =
     Inr (if \<exists>j. i \<le> j \<and> j < n \<and> P j then 1 else 0)"
  using assms
proof (induction c shdr st n data i rule: has_dgsh_section_from.induct)
  case (1 c shdr st n data i)
  show ?case
  proof (cases "i < n")
    case False
    then show ?thesis by (subst has_dgsh_section_from.simps) auto
  next
    case True
    have at: "dgsh_section_at c shdr st data i = Inr (P i)"
      using "1.prems" True by simp
    show ?thesis
    proof (cases "P i")
      case True
      with at \<open>i < n\<close> show ?thesis
        by (subst has_dgsh_section_from.simps) auto
    next
      case False
      have "has_dgsh_section_from c shdr st n data (i + 1) =
          Inr (if \<exists>j. i + 1 \<le> j \<and> j < n \<and> P j then 1 else 0)"
        using "1.IH" [OF True, of "P i"] False "1.prems" by simp
      moreover have "(\<exists>j. i + 1 \<le> j \<and> j < n \<and> P j) \<longleftrightarrow> (\<exists>j. i \<le> j \<and> j < n \<and> P j)"
        using False by (metis Suc_eq_plus1 Suc_leI le_neq_implies_less Suc_leD)
      ultimately show ?thesis
        using at False True by (subst has_dgsh_section_from.simps) simp
    qed
  qed
qed

lemma field_sizes:
  "fst (e_shoff c) + snd (e_shoff c) \<le> sizeof_Ehdr c"
  "fst (e_shnum c) + snd (e_shnum c) \<le> sizeof_Ehdr c"
  "fst (e_shstrndx c) + snd (e_shstrndx c) \<le> sizeof_Ehdr c"
  "fst (sh_name c) + snd (sh_name c) \<le> sizeof_Shdr c"
  "fst (sh_offset c) + snd (sh_offset c) \<le> sizeof_Shdr c"
  "fst (sh_size c) + snd (sh_size c) \<le> sizeof_Shdr c"
  by (cases c; simp)+

lemma rd_shdr_in:
  assumes "shoff + n * sizeof_Shdr c \<le> length data" "i < n" "fst f + snd f \<le> sizeof_Shdr c"
  shows "rd_shdr c data shoff i f = Inr (fld data (shoff + i * sizeof_Shdr c) f)"
proof -
  from assms(2) have "Suc i * sizeof_Shdr c \<le> n * sizeof_Shdr c"
    by (intro mult_le_mono1) simp
  with assms(1,3) have "shoff + i * sizeof_Shdr c + fst f + snd f \<le> length data"
    by simp
  then show ?thesis
    unfolding rd_shdr_def by (rule rd_field_in)
qed

lemma dgsh_section_at_wf:
  assumes wf: "wf_elf c data" and i: "i < fld data 0 (e_shnum c)"
  shows "dgsh_section_at c (fld data 0 (e_shoff c)) (strtab_off c data) data i =
     Inr (dgsh_note_section c data i)"
proof -
  let ?shoff = "fld data 0 (e_shoff c)"
  let ?so = "strtab_off c data" and ?ssz = "strtab_size c data"
  let ?name = "shdr_fld c data i (sh_name c)"
  let ?off = "shdr_fld c data i (sh_offset c)"
  from wf have tbl: "?shoff + fld data 0 (e_shnum c) * sizeof_Shdr c \<le> length data"
    and ssz: "0 < ?ssz" "?so + ?ssz \<le> length data"
    and nul: "data ! (?so + ?ssz - 1) = CHR 0x00"
    by (simp_all add: wf_elf_def)
  from wf i have name: "?name < ?ssz"
    and nt: "section_named c data i ''.note.ident'' \<Longrightarrow> note_in_section c data i"
    by (simp_all add: wf_elf_def)
  have r1: "rd_shdr c data ?shoff i (sh_name c) = Inr ?name"
    unfolding shdr_fld_def by (rule rd_shdr_in [OF tbl i field_sizes(4)])
  have r3: "rd_shdr c data ?shoff i (sh_offset c) = Inr ?off"
    unfolding shdr_fld_def by (rule rd_shdr_in [OF tbl i field_sizes(5)])
  have r2: "strcmp0 data (?so + ?name) ''.note.ident'' =
      Inr (section_named c data i ''.note.ident'')"
    unfolding strcmp0_def section_named_def cstr_def
    by (rule strcmp_from_terminated [where z = "?so + ?ssz - 1"])
      (use name ssz nul in simp_all)
  show ?thesis
  proof (cases "section_named c data i ''.note.ident''")
    case False
    with r1 r2 show ?thesis
      by (simp add: dgsh_section_at_def dgsh_note_section_def)
  next
    case True
    from nt [OF True] have fit: "?off + shdr_fld c data i (sh_size c) \<le> length data"
      "sizeof_Nhdr \<le> shdr_fld c data i (sh_size c)"
      "sizeof_Nhdr + fld data ?off n_namesz \<le> shdr_fld c data i (sh_size c)"
      by (simp_all add: note_in_section_def Let_def)
    have r4: "rd_field data ?off n_namesz = Inr (fld data ?off n_namesz)"
      by (rule rd_field_in) (use fit in \<open>simp add: n_namesz_def sizeof_Nhdr_def\<close>)
    show ?thesis
    proof (cases "fld data ?off n_namesz = sizeof_DGSH_NAME")
      case False
      with True r1 r2 r3 r4 show ?thesis
        by (simp add: dgsh_section_at_def dgsh_note_section_def note_name_is_def)
    next
      case sz: True
      with fit have "?off + sizeof_Nhdr + length (cstr DGSH_NAME) \<le> length data"
        by (simp add: sizeof_DGSH_NAME_def)
      then have r5: "memcmp0 data (?off + sizeof_Nhdr) (cstr DGSH_NAME) =
          Inr (bytes_at data (?off + sizeof_Nhdr) (cstr DGSH_NAME))"
        by (simp add: memcmp0_in bytes_at_def)
      from True sz r1 r2 r3 r4 r5 show ?thesis
        by (simp add: dgsh_section_at_def dgsh_note_section_def note_name_is_def)
    qed
  qed
qed

lemma is_elf_dgsh_program_class:
  assumes "memcmp0 data 0 ELFMAG = Inr True" "rd8 data EI_CLASS = Inr a"
    "of_char a = class_byte c"
  shows "is_elf_dgsh_program data =
     thenf (rd_field data 0 (e_shoff c)) (\<lambda>shdr.
     thenf (rd_field data 0 (e_shstrndx c)) (\<lambda>ndx.
     thenf (rd_shdr c data shdr ndx (sh_offset c)) (\<lambda>strtab.
     thenf (rd_field data 0 (e_shnum c)) (\<lambda>shnum.
       has_dgsh_section_from c shdr strtab shnum data 0))))"
  using assms
  by (cases c) (simp_all add: is_elf_dgsh_program_def has_dgsh_section_32_def has_dgsh_section_64_def)

lemma is_elf_dgsh_program_wf:
  assumes wf: "wf_elf c data"
  shows "is_elf_dgsh_program data =
     Inr (if \<exists>i < fld data 0 (e_shnum c). dgsh_note_section c data i then 1 else 0)"
proof -
  let ?shoff = "fld data 0 (e_shoff c)" and ?n = "fld data 0 (e_shnum c)"
  let ?ndx = "fld data 0 (e_shstrndx c)"
  from wf have hdr: "sizeof_Ehdr c \<le> length data" and mag: "bytes_at data 0 ELFMAG"
    and cls: "of_char (data ! EI_CLASS) = class_byte c"
    and tbl: "?shoff + ?n * sizeof_Shdr c \<le> length data" and ndx: "?ndx < ?n"
    by (simp_all add: wf_elf_def)
  have m: "memcmp0 data 0 ELFMAG = Inr True"
    using mag by (simp add: bytes_at_def memcmp0_in)
  have "EI_CLASS < length data"
    using hdr by (cases c) (simp_all add: EI_CLASS_def)
  then have a: "rd8 data EI_CLASS = Inr (data ! EI_CLASS)" by (rule rd8_in)
  have h1: "rd_field data 0 (e_shoff c) = Inr ?shoff"
    by (rule rd_field_in) (use hdr field_sizes(1) [of c] in simp)
  have h2: "rd_field data 0 (e_shstrndx c) = Inr ?ndx"
    by (rule rd_field_in) (use hdr field_sizes(3) [of c] in simp)
  have h3: "rd_field data 0 (e_shnum c) = Inr ?n"
    by (rule rd_field_in) (use hdr field_sizes(2) [of c] in simp)
  have h4: "rd_shdr c data ?shoff ?ndx (sh_offset c) = Inr (strtab_off c data)"
    unfolding strtab_off_def shdr_fld_def by (rule rd_shdr_in [OF tbl ndx field_sizes(5)])
  have "has_dgsh_section_from c ?shoff (strtab_off c data) ?n data 0 =
     Inr (if \<exists>j. 0 \<le> j \<and> j < ?n \<and> dgsh_note_section c data j then 1 else 0)"
    by (rule has_dgsh_section_from_eq) (rule dgsh_section_at_wf [OF wf])
  with h1 h2 h3 h4 show ?thesis
    by (simp add: is_elf_dgsh_program_class [OF m a cls])
qed

lemma rd8_stays: "stays (rd8 data p) (rd8 (data @ ext) p)"
  by (simp add: stays_def rd8_ext)

lemma rd_field_stays: "stays (rd_field data b f) (rd_field (data @ ext) b f)"
  by (simp add: stays_def rd_field_ext)

lemma rd_shdr_stays: "stays (rd_shdr c data s i f) (rd_shdr c (data @ ext) s i f)"
  by (simp add: stays_def rd_shdr_ext)

lemma strcmp0_stays: "stays (strcmp0 data p lit) (strcmp0 (data @ ext) p lit)"
  by (simp add: stays_def strcmp0_ext)

lemma dgsh_section_at_stays:
  "stays (dgsh_section_at c shdr st data i) (dgsh_section_at c shdr st (data @ ext) i)"
  unfolding dgsh_section_at_def
  by (intro stays_thenf stays_if rd_shdr_stays rd_field_stays strcmp0_stays memcmp0_stays
      stays_refl)

lemma has_dgsh_section_from_ext:
  "has_dgsh_section_from c shdr st n data i = Inr r \<Longrightarrow>
   has_dgsh_section_from c shdr st n (data @ ext) i = Inr r"
proof (induction c shdr st n data i rule: has_dgsh_section_from.induct)
  case (1 c shdr st n data i)
  show ?case
  proof (cases "i < n")
    case False
    with "1.prems" show ?thesis by (simp add: has_dgsh_section_from.simps)
  next
    case True
    from "1.prems" True obtain found where f: "dgsh_section_at c shdr st data i = Inr found"
      and rest: "(if found then Inr 1 else has_dgsh_section_from c shdr st n data (i + 1)) = Inr r"
      by (subst (asm) has_dgsh_section_from.simps) (auto simp: thenf_Inr_iff)
    have f': "dgsh_section_at c shdr st (data @ ext) i = Inr found"
      using dgsh_section_at_stays f by (rule staysD)
    show ?thesis
    proof (cases found)
      case True
      with rest f' \<open>i < n\<close> show ?thesis by (subst has_dgsh_section_from.simps) simp
    next
      case False
      with rest have "has_dgsh_section_from c shdr st n data (i + 1) = Inr r" by simp
      with "1.IH" [OF True, of found] False
      have "has_dgsh_section_from c shdr st n (data @ ext) (i + 1) = Inr r" by simp
      with f' False True show ?thesis by (subst has_dgsh_section_from.simps) simp
    qed
  qed
qed

lemma has_dgsh_section_from_stays:
  "stays (has_dgsh_section_from c shdr st n data i) (has_dgsh_section_from c shdr st n (data @ ext) i)"
  by (simp add: stays_def has_dgsh_section_from_ext)

lemma is_elf_stays: "stays (is_elf_dgsh_program data) (is_elf_dgsh_program (data @ ext))"
  unfolding is_elf_dgsh_program_def has_dgsh_section_32_def has_dgsh_section_64_def
  by (intro stays_thenf stays_if rd8_stays rd_shdr_stays rd_field_stays memcmp0_stays
      has_dgsh_section_from_stays stays_refl)

lemma classify_mapped_stays:
  "stays (classify_mapped data len) (classify_mapped (data @ ext) len)"
  unfolding classify_mapped_def
  by (intro stays_thenf stays_if memcmp0_stays is_script_stays is_elf_stays)

lemma classify_mapped_nonempty: "classify_mapped [] len = Inl OutOfBounds"
  by (simp add: classify_mapped_def memcmp0_def rd_bytes_def)

lemma is_dgsh_program_Regular:
  assumes "files sys path = Regular bs" "bs \<noteq> []"
  shows "is_dgsh_program sys path =
     classify_mapped (bs @ replicate (page_fill (pagesize sys) (length bs)) (CHR 0x00)) (length bs)"
  using assms by (simp add: is_dgsh_program_def Let_def)

lemma is_dgsh_program_in_bounds:
  assumes "files sys path = Regular bs" "classify_mapped bs (length bs) = Inr r"
  shows "is_dgsh_program sys path = Inr r"
proof -
  from assms(2) have ne: "bs \<noteq> []" by (auto simp: classify_mapped_nonempty)
  show ?thesis
    unfolding is_dgsh_program_Regular [OF assms(1) ne]
    using classify_mapped_stays assms(2) by (rule staysD)
qed

lemma has_dgsh_section_from_bool:
  "has_dgsh_section_from c shdr st n data i = Inr r \<Longrightarrow> r = 0 \<or> r = 1"
proof (induction c shdr st n data i rule: has_dgsh_section_from.induct)
  case (1 c shdr st n data i)
  show ?case
  proof (cases "i < n")
    case False
    with "1.prems" show ?thesis by (simp add: has_dgsh_section_from.simps)
  next
    case True
    from "1.prems" True obtain found where f: "dgsh_section_at c shdr st data i = Inr found"
      and rest: "(if found then Inr 1 else has_dgsh_section_from c shdr st n data (i + 1)) = Inr r"
      by (subst (asm) has_dgsh_section_from.simps) (auto simp: thenf_Inr_iff)
    show ?thesis
    proof (cases found)
      case True
      with rest show ?thesis by simp
    next
      case False
      with rest have "has_dgsh_section_from c shdr st n data (i + 1) = Inr r" by simp
      with "1.IH" [OF True, of found] False show ?thesis by simp
    qed
  qed
qed

lemma is_elf_bool: "is_elf_dgsh_program data = Inr r \<Longrightarrow> r = 0 \<or> r = 1"
  unfolding is_elf_dgsh_program_def has_dgsh_section_32_def has_dgsh_section_64_def
  by (auto simp: thenf_Inr_iff split: if_splits dest: has_dgsh_section_from_bool)

lemma is_script_bool: "is_script_dgsh_program data len = Inr r \<Longrightarrow> r = 0 \<or> r = 1"
  unfolding is_script_dgsh_program_def Let_def
  by (auto simp: thenf_Inr_iff split: if_splits)

lemma classify_mapped_bool: "classify_mapped data len = Inr r \<Longrightarrow> r = 0 \<or> r = 1"
  unfolding classify_mapped_def
  by (auto simp: thenf_Inr_iff split: if_splits dest: is_elf_bool is_script_bool)

lemma is_dgsh_program_bool: "is_dgsh_program sys path = Inr r \<Longrightarrow> r = 0 \<or> r = 1"
  unfolding is_dgsh_program_def Let_def
  by (auto split: fs_entry.splits pointer.splits dest: classify_mapped_bool)

section \<open>The script scanner on a window\<close>


lemma classify_mapped_script:
  "bytes_at data 0 ''#!'' \<Longrightarrow> classify_mapped data len = is_script_dgsh_program data len"
  by (simp add: classify_mapped_def bytes_at_def memcmp0_in)

lemma linenstr_loop_first_line:
  assumes "p \<le> k" "k < length data" "data ! k = newline"
    and "\<forall>q \<in> {p..<k}. q + length needle \<le> length data \<and> \<not> bytes_at data q needle"
  shows "linenstr_loop data p needle hlen = Inr None"
  using assms
proof (induction data p needle hlen rule: linenstr_loop.induct)
  case (1 data p needle hlen)
  show ?case
  proof (cases "length needle < hlen")
    case False
    then show ?thesis by (simp add: linenstr_loop.simps)
  next
    case True
    from "1.prems" have p: "p < length data" by simp
    show ?thesis
    proof (cases "data ! p = newline")
      case True
      with p \<open>length needle < hlen\<close> show ?thesis
        by (subst linenstr_loop.simps) (simp add: rd8_in)
    next
      case nonl: False
      with "1.prems" have pk: "p < k" by (cases "p = k") auto
      with "1.prems"(4) have fit: "p + length needle \<le> length data"
        and nm: "\<not> bytes_at data p needle" by auto
      from fit nm have m: "memcmp0 data p needle = Inr False"
        by (simp add: memcmp0_in bytes_at_def)
      have "linenstr_loop data (p + 1) needle (hlen - 1) = Inr None"
        using "1.IH" [OF True, of "data ! p" False] nonl pk "1.prems" by auto
      with p nonl m True show ?thesis
        by (subst linenstr_loop.simps) (simp add: rd8_in)
    qed
  qed
qed

lemma wrap_on_second_line_first_line:
  assumes "needle \<in> {''dgsh-wrap'', ''--dgsh'', ''env dgsh''}"
  shows "linenstr (wrap_on_second_line @ rest) needle hlen = Inr None"
  unfolding linenstr_def
proof (rule linenstr_loop_first_line [where k = 9])
  show "(wrap_on_second_line @ rest) ! 9 = newline"
    by (simp add: wrap_on_second_line_def nth_append)
  show "9 < length (wrap_on_second_line @ rest)"
    by (simp add: wrap_on_second_line_def)
  have "\<forall>q \<in> {0..<9}. q + length needle \<le> length wrap_on_second_line \<and>
      \<not> bytes_at wrap_on_second_line q needle"
    using assms by (elim insertE emptyE; hypsubst) code_simp+
  then show "\<forall>q \<in> {0..<9}. q + length needle \<le> length (wrap_on_second_line @ rest) \<and>
      \<not> bytes_at (wrap_on_second_line @ rest) q needle"
    by (auto simp: bytes_at_def)
qed simp

lemma wrap_on_second_line_magic:
  assumes "length wrap_on_second_line \<le> len" "len \<le> length (wrap_on_second_line @ rest)"
  shows "is_magic_script_dgsh_program (wrap_on_second_line @ rest) len = Inr 0"
proof -
  have t: "take len (wrap_on_second_line @ rest) =
      wrap_on_second_line @ take (len - length wrap_on_second_line) rest"
    using assms(1) by simp
  have "take (length magic) (second_line (wrap_on_second_line @ x)) \<noteq> magic" for x
    by (simp add: wrap_on_second_line_def second_line_def magic_def newline_def)
  with is_magic_in [OF assms(2)] t show ?thesis by simp
qed




section \<open>The mapping and the dispatch\<close>

lemma page_fill_covers:
  assumes "0 < n" "0 < ps"
  shows "ps \<le> n + page_fill ps n"
proof (cases "n mod ps = 0")
  case True
  then have "ps dvd n" by auto
  with assms(1) have "ps \<le> n" by (simp add: dvd_imp_le)
  then show ?thesis by simp
next
  case False
  have lt: "n mod ps < ps" using assms(2) by simp
  with False have "page_fill ps n = ps - n mod ps"
    by (simp add: page_fill_def)
  moreover have "n mod ps \<le> n" by simp
  ultimately show ?thesis using lt by linarith
qed

lemma bytes_at_padded:
  assumes "CHR 0x00 \<notin> set s"
  shows "take (length s) (b @ replicate k (CHR 0x00)) = s \<longleftrightarrow> bytes_at b 0 s"
proof (cases "length s \<le> length b")
  case True
  then show ?thesis by (simp add: bytes_at_def)
next
  case False
  then have short: "length b < length s" by simp
  have "take (length s) (b @ replicate k (CHR 0x00)) \<noteq> s"
  proof
    assume eq: "take (length s) (b @ replicate k (CHR 0x00)) = s"
    from arg_cong [OF eq, of length]
    have "min (length s) (length b + k) = length s" by simp
    with short have k: "length b < length b + k" by simp
    have "take (length s) (b @ replicate k (CHR 0x00)) ! length b =
        (b @ replicate k (CHR 0x00)) ! length b"
      using short by (rule nth_take)
    with eq have "s ! length b = (b @ replicate k (CHR 0x00)) ! length b" by simp
    also have "\<dots> = CHR 0x00" using k by (simp add: nth_append)
    finally have "s ! length b = CHR 0x00" .
    with nth_mem [OF short] have "CHR 0x00 \<in> set s" by simp
    with assms show False by simp
  qed
  with False show ?thesis by (simp add: bytes_at_def)
qed

lemma take_eq_nth: "take (length s) b = s \<Longrightarrow> i < length s \<Longrightarrow> b ! i = s ! i"
  using nth_take [of i "length s" b] by simp

lemma is_elf_not_magic:
  "length ELFMAG \<le> length data \<Longrightarrow> take (length ELFMAG) data \<noteq> ELFMAG \<Longrightarrow>
   is_elf_dgsh_program data = Inr 0"
  by (simp add: is_elf_dgsh_program_def memcmp0_in)

lemma classify_mapped_unrecognised:
  assumes "length ELFMAG \<le> length b" "\<not> bytes_at b 0 ''#!''" "\<not> bytes_at b 0 ELFMAG"
  shows "classify_mapped b len = Inr 0"
proof -
  from assms(1) have "2 \<le> length b" by (simp add: ELFMAG_def)
  with assms(2) have "memcmp0 b 0 ''#!'' = Inr False"
    by (simp add: memcmp0_in bytes_at_def)
  moreover from assms(1,3) have "is_elf_dgsh_program b = Inr 0"
    by (intro is_elf_not_magic) (simp_all add: bytes_at_def)
  ultimately show ?thesis by (simp add: classify_mapped_def)
qed

lemma classify_mapped_other_class:
  assumes "bytes_at b 0 ELFMAG" "EI_CLASS < length b"
    "of_char (b ! EI_CLASS) \<noteq> (1::nat)" "of_char (b ! EI_CLASS) \<noteq> (2::nat)"
  shows "classify_mapped b len = Inr 0"
proof -
  from assms have len: "4 < length b" and mg: "take (length ELFMAG) b = ELFMAG"
    by (simp_all add: EI_CLASS_def bytes_at_def)
  have "b ! 0 = ELFMAG ! 0"
    using take_eq_nth [OF mg, of 0] by (simp add: ELFMAG_def)
  moreover have "b ! 0 = ''#!'' ! 0" if "take (length ''#!'') b = ''#!''"
    using take_eq_nth [OF that, of 0] by simp
  ultimately have "take (length ''#!'') b \<noteq> ''#!''"
    by (auto simp: ELFMAG_def)
  with len have s: "memcmp0 b 0 ''#!'' = Inr False" by (simp add: memcmp0_in)
  from len mg have m: "memcmp0 b 0 ELFMAG = Inr True"
    by (simp add: memcmp0_in ELFMAG_def)
  from assms(2) have c: "rd8 b EI_CLASS = Inr (b ! EI_CLASS)" by (simp add: rd8_in)
  have "is_elf_dgsh_program b = Inr 0"
    unfolding is_elf_dgsh_program_def using assms(3,4) by (simp add: m c)
  with s show ?thesis by (simp add: classify_mapped_def)
qed

section \<open>The ELF walker on images\<close>

lemma has_dgsh_section_fuel_enough:
  "shNum - i \<le> k \<Longrightarrow>
   has_dgsh_section_fuel k c shdr strTab shNum data i =
     Some (has_dgsh_section_from c shdr strTab shNum data i)"
proof (induction k arbitrary: i)
  case 0
  then show ?case by (simp add: has_dgsh_section_from.simps)
next
  case (Suc k)
  show ?case
  proof (cases "i < shNum")
    case False
    then show ?thesis by (simp add: has_dgsh_section_from.simps)
  next
    case True
    with Suc.prems have "shNum - (i + 1) \<le> k" by simp
    from Suc.IH [OF this] True show ?thesis
      by (subst has_dgsh_section_from.simps) (simp split: sum.splits)
  qed
qed

lemma fld_append:
  "base + fst f + snd f \<le> length a \<Longrightarrow> fld (a @ x) base f = fld a base f"
  by (simp add: fld_def)

lemma rd_field_out:
  "length data < base + fst f + snd f \<Longrightarrow> rd_field data base f = Inl OutOfBounds"
  by (simp add: rd_field_def rd_le_def rd_bytes_def)

lemma wf_elf_not_script:
  assumes "wf_elf c b"
  shows "memcmp0 b 0 ''#!'' = Inr False"
proof -
  from assms have hdr: "sizeof_Ehdr c \<le> length b" and mg: "bytes_at b 0 ELFMAG"
    by (simp_all add: wf_elf_def)
  from hdr have len: "2 \<le> length b" by (cases c) simp_all
  from mg have "take (length ELFMAG) b = ELFMAG" by (simp add: bytes_at_def)
  from take_eq_nth [OF this, of 0] have "b ! 0 = CHR 0x7F" by (simp add: ELFMAG_def)
  moreover have "b ! 0 = ''#!'' ! 0" if "take (length ''#!'') b = ''#!''"
    using take_eq_nth [OF that, of 0] by simp
  ultimately have "take (length ''#!'') b \<noteq> ''#!''" by auto
  with len show ?thesis by (simp add: memcmp0_in)
qed

lemma classify_mapped_wf:
  assumes "wf_elf c b"
  shows "classify_mapped b len =
     Inr (if \<exists>i < fld b 0 (e_shnum c). dgsh_note_section c b i then 1 else 0)"
  using wf_elf_not_script [OF assms] is_elf_dgsh_program_wf [OF assms]
  by (simp add: classify_mapped_def)

lemma section_table_past_mapping:
  assumes f: "files sys path = Regular b" and hdr: "sizeof_Ehdr c \<le> length b"
    and mg: "bytes_at b 0 ELFMAG" and cls: "of_char (b ! EI_CLASS) = class_byte c"
    and past: "length b + page_fill (pagesize sys) (length b) <
      fld b 0 (e_shoff c) + fld b 0 (e_shstrndx c) * sizeof_Shdr c +
      fst (sh_offset c) + snd (sh_offset c)"
  shows "is_dgsh_program sys path = Inl OutOfBounds"
proof -
  let ?m = "b @ replicate (page_fill (pagesize sys) (length b)) (CHR 0x00)"
  from hdr have ne: "b \<noteq> []" and len: "4 < length b" by (cases c; auto)+
  from mg have tk: "take (length ELFMAG) b = ELFMAG" and le: "length ELFMAG \<le> length b"
    by (simp_all add: bytes_at_def)
  from take_eq_nth [OF tk, of 0] have "b ! 0 = CHR 0x7F" by (simp add: ELFMAG_def)
  moreover have "b ! 0 = ''#!'' ! 0" if "take (length ''#!'') b = ''#!''"
    using take_eq_nth [OF that, of 0] by simp
  ultimately have "take (length ''#!'') b \<noteq> ''#!''" by auto
  with len have s: "memcmp0 ?m 0 ''#!'' = Inr False" by (simp add: memcmp0_in)
  from tk le have m: "memcmp0 ?m 0 ELFMAG = Inr True" by (simp add: memcmp0_in)
  from len have a: "rd8 ?m EI_CLASS = Inr (b ! EI_CLASS)"
    by (simp add: rd8_def EI_CLASS_def nth_append)
  have h1: "rd_field ?m 0 (e_shoff c) = Inr (fld b 0 (e_shoff c))"
    using hdr field_sizes(1) [of c] by (simp add: rd_field_in fld_append)
  have h2: "rd_field ?m 0 (e_shstrndx c) = Inr (fld b 0 (e_shstrndx c))"
    using hdr field_sizes(3) [of c] by (simp add: rd_field_in fld_append)
  have h3: "rd_shdr c ?m (fld b 0 (e_shoff c)) (fld b 0 (e_shstrndx c)) (sh_offset c) =
      Inl OutOfBounds"
    unfolding rd_shdr_def using past by (intro rd_field_out) simp
  have "is_elf_dgsh_program ?m = Inl OutOfBounds"
    by (simp add: is_elf_dgsh_program_class [OF m a cls] h1 h2 h3)
  with s have "classify_mapped ?m (length b) = Inl OutOfBounds"
    by (simp add: classify_mapped_def)
  then show ?thesis by (simp add: is_dgsh_program_Regular [OF f ne])
qed

lemma dgsh_elf64_wf: "wf_elf ELFCLASS64 dgsh_elf64"
  by code_simp


lemma other_name_elf64_wf: "wf_elf ELFCLASS64 other_name_elf64"
  by code_simp

lemma dgsh_elf32_wf: "wf_elf ELFCLASS32 dgsh_elf32"
  by code_simp

lemma namesz17_elf64_wf: "wf_elf ELFCLASS64 namesz17_elf64"
  by code_simp



lemma le_val_zeros: "le_val (replicate n (CHR 0x00)) = 0"
  by (induction n) simp_all

lemma rd_field_fill:
  assumes "length b \<le> base + fst f" "base + fst f + snd f \<le> length b + k"
  shows "rd_field (b @ replicate k (CHR 0x00)) base f = Inr 0"
proof -
  have "take (snd f) (drop (base + fst f) (b @ replicate k (CHR 0x00))) =
      replicate (snd f) (CHR 0x00)"
    using assms by (simp add: min_def)
  with assms(2) show ?thesis
    by (simp add: rd_field_def rd_le_def rd_bytes_def le_val_zeros)
qed

lemma shoff_past_end_elf64_fields:
  "length shoff_past_end_elf64 = 64"
  "fld shoff_past_end_elf64 0 (e_shoff ELFCLASS64) = 8192"
  "fld shoff_past_end_elf64 0 (e_shstrndx ELFCLASS64) = 0"
  "fld shoff_past_end_elf64 0 (e_shnum ELFCLASS64) = 1"
  "bytes_at shoff_past_end_elf64 0 ELFMAG"
  "of_char (shoff_past_end_elf64 ! EI_CLASS) = class_byte ELFCLASS64"
  "shoff_past_end_elf64 ! 0 = CHR 0x7F"
  by code_simp+

lemma shoff_past_end_elf64_small_pages:
  "is_dgsh_program (sys_with (Regular shoff_past_end_elf64)) ''prog'' = Inl OutOfBounds"
proof -
  have p: "page_fill 4096 64 = 4032" by (simp add: page_fill_def)
  show ?thesis
    by (rule section_table_past_mapping [where c = ELFCLASS64 and b = shoff_past_end_elf64])
      (use shoff_past_end_elf64_fields p in \<open>simp_all add: sys_with_def\<close>)
qed

lemma shoff_past_end_elf64_large_pages:
  "is_dgsh_program (sys_16k (Regular shoff_past_end_elf64)) ''prog'' = Inr 0"
proof -
  let ?b = shoff_past_end_elf64
  let ?m = "?b @ replicate 16320 (CHR 0x00)"
  note f = shoff_past_end_elf64_fields
  have p: "page_fill 16384 64 = 16320" by (simp add: page_fill_def)
  have ne: "?b \<noteq> []" using f(1) by auto
  have tk: "take (length ELFMAG) ?b = ELFMAG" and le: "length ELFMAG \<le> length ?b"
    using f(5) by (simp_all add: bytes_at_def)
  have "?b ! 0 = ''#!'' ! 0" if "take (length ''#!'') ?b = ''#!''"
    using take_eq_nth [OF that, of 0] by simp
  with f(7) have "take (length ''#!'') ?b \<noteq> ''#!''" by auto
  then have s: "memcmp0 ?m 0 ''#!'' = Inr False"
    using f(1) by (simp add: memcmp0_in)
  have m: "memcmp0 ?m 0 ELFMAG = Inr True"
    using tk le by (simp add: memcmp0_in)
  have a: "rd8 ?m EI_CLASS = Inr (?b ! EI_CLASS)"
    using f(1) by (simp add: rd8_def EI_CLASS_def nth_append)
  have h1: "rd_field ?m 0 (e_shoff ELFCLASS64) = Inr 8192"
    using f(1,2) by (simp add: rd_field_in fld_append)
  have h2: "rd_field ?m 0 (e_shstrndx ELFCLASS64) = Inr 0"
    using f(1,3) by (simp add: rd_field_in fld_append)
  have h3: "rd_field ?m 0 (e_shnum ELFCLASS64) = Inr 1"
    using f(1,4) by (simp add: rd_field_in fld_append)
  have h4: "rd_shdr ELFCLASS64 ?m 8192 0 (sh_offset ELFCLASS64) = Inr 0"
    unfolding rd_shdr_def by (rule rd_field_fill) (simp_all add: f(1))
  have n0: "rd_shdr ELFCLASS64 ?m 8192 0 (sh_name ELFCLASS64) = Inr 0"
    unfolding rd_shdr_def by (rule rd_field_fill) (simp_all add: f(1))
  have c0: "strcmp0 ?m 0 ''.note.ident'' = Inr False"
    using f(1,7) by (simp add: strcmp0_def cstr_def rd8_def nth_append)
  have b0: "dgsh_section_at ELFCLASS64 8192 0 ?m 0 = Inr False"
    by (simp only: dgsh_section_at_def n0 thenf.simps add_0 c0 not_False_eq_True if_True)
  have "has_dgsh_section_from ELFCLASS64 8192 0 1 ?m 0 = Inr 0"
    by (subst has_dgsh_section_from.simps, simp add: b0)
      (subst has_dgsh_section_from.simps, simp)
  then have "is_elf_dgsh_program ?m = Inr 0"
    using h1 h2 h3 h4
    by (simp add: is_elf_dgsh_program_class [OF m a f(6)])
  with s have "classify_mapped ?m (length ?b) = Inr 0"
    by (simp add: classify_mapped_def)
  then show ?thesis
    using is_dgsh_program_Regular [of "sys_16k (Regular ?b)" "''prog''" ?b] ne p f(1)
    by (simp add: sys_16k_def)
qed

section \<open>The claims\<close>

text \<open>
  A run on the bytes of the file alone, \<open>classify_mapped b (length b)\<close>, returns a value
  only if every read lies in \<open>[0, length b)\<close>: a list holds nothing behind its last element.
  \<open>is_dgsh_program\<close> runs on the mapping, which holds the zero bytes of the last page too.
\<close>

text \<open>
  C1, as amended. The ELF walker has no length to compare an offset with, and compares
  none: where a header field leads outside the mapping, the read is made there.
  Classification reads inside \<open>[0, length)\<close> only, and returns a value, for a file that
  begins with \<^verbatim>\<open>#!\<close>, for a file of 4 bytes or more that begins with neither \<^verbatim>\<open>#!\<close> nor the
  ELF magic number, for a file with the magic number and a class byte other than 1 and 2,
  and for a well-formed ELF image, in which every offset that the walker derives from the
  header fields lies inside the buffer.
\<close>

theorem reads_stay_in_buffer:
  assumes "files sys path = Regular b"
    and "bytes_at b 0 ''#!'' \<or>
         (length ELFMAG \<le> length b \<and> \<not> bytes_at b 0 ELFMAG) \<or>
         (bytes_at b 0 ELFMAG \<and> EI_CLASS < length b \<and>
          of_char (b ! EI_CLASS) \<noteq> (1::nat) \<and> of_char (b ! EI_CLASS) \<noteq> (2::nat)) \<or>
         wf_elf c b"
  shows "\<exists>r. classify_mapped b (length b) = Inr r \<and> is_dgsh_program sys path = Inr r"
proof -
  have "\<exists>r. classify_mapped b (length b) = Inr r"
  proof (cases "bytes_at b 0 ''#!''")
    case True
    have "min (length b) MAX_LINE_LEN \<le> length b" by simp
    from is_script_in [OF this] True show ?thesis
      by (auto simp: classify_mapped_script)
  next
    case False
    with assms(2) consider "length ELFMAG \<le> length b \<and> \<not> bytes_at b 0 ELFMAG"
      | "bytes_at b 0 ELFMAG \<and> EI_CLASS < length b \<and>
          of_char (b ! EI_CLASS) \<noteq> (1::nat) \<and> of_char (b ! EI_CLASS) \<noteq> (2::nat)"
      | "wf_elf c b"
      by blast
    then show ?thesis
    proof cases
      case 1
      with False show ?thesis by (simp add: classify_mapped_unrecognised)
    next
      case 2
      then show ?thesis by (simp add: classify_mapped_other_class)
    next
      case 3
      then show ?thesis by (simp add: classify_mapped_wf)
    qed
  qed
  then obtain r where r: "classify_mapped b (length b) = Inr r" ..
  with assms(1) have "is_dgsh_program sys path = Inr r" by (rule is_dgsh_program_in_bounds)
  with r show ?thesis by blast
qed

theorem reads_stay_in_buffer_witness:
  "(\<exists>r. classify_mapped dgsh_elf64 (length dgsh_elf64) = Inr r \<and>
        is_dgsh_program (sys_with (Regular dgsh_elf64)) ''prog'' = Inr r) \<and>
   (\<exists>r. classify_mapped marker_script (length marker_script) = Inr r \<and>
        is_dgsh_program (sys_with (Regular marker_script)) ''prog'' = Inr r) \<and>
   (\<exists>r. classify_mapped png_blob (length png_blob) = Inr r \<and>
        is_dgsh_program (sys_with (Regular png_blob)) ''prog'' = Inr r) \<and>
   (\<exists>r. classify_mapped elf_class_3 (length elf_class_3) = Inr r \<and>
        is_dgsh_program (sys_with (Regular elf_class_3)) ''prog'' = Inr r)"
proof -
  have f: "files (sys_with (Regular x)) ''prog'' = Regular x" for x
    by (simp add: sys_with_def)
  have s: "bytes_at marker_script 0 ''#!''" by code_simp
  have p: "length ELFMAG \<le> length png_blob \<and> \<not> bytes_at png_blob 0 ELFMAG" by code_simp
  have e: "bytes_at elf_class_3 0 ELFMAG \<and> EI_CLASS < length elf_class_3 \<and>
      of_char (elf_class_3 ! EI_CLASS) \<noteq> (1::nat) \<and>
      of_char (elf_class_3 ! EI_CLASS) \<noteq> (2::nat)"
    by code_simp
  from reads_stay_in_buffer [OF f, of dgsh_elf64 ELFCLASS64] dgsh_elf64_wf
    reads_stay_in_buffer [OF f, of marker_script ELFCLASS64] s
    reads_stay_in_buffer [OF f, of png_blob ELFCLASS64] p
    reads_stay_in_buffer [OF f, of elf_class_3 ELFCLASS64] e
  show ?thesis by blast
qed

text \<open>
  A file that fails the claim as it was stated: an ELF header of class 2 and 64 bytes whose
  \<^verbatim>\<open>e_shoff\<close> is 8192. With pages of 4096 bytes, one page is mapped; the walker reads
  \<^verbatim>\<open>shdr[0].sh_offset\<close> at offset 8216.
\<close>

theorem unchecked_offset_counterexample:
  "length shoff_past_end_elf64 < fld shoff_past_end_elf64 0 (e_shoff ELFCLASS64) \<and>
   is_dgsh_program (sys_with (Regular shoff_past_end_elf64)) ''prog'' = Inl OutOfBounds"
proof -
  have v: "length shoff_past_end_elf64 = 64 \<and>
      fld shoff_past_end_elf64 0 (e_shoff ELFCLASS64) = 8192 \<and>
      fld shoff_past_end_elf64 0 (e_shstrndx ELFCLASS64) = 0"
    by code_simp
  have h: "sizeof_Ehdr ELFCLASS64 \<le> length shoff_past_end_elf64 \<and>
      bytes_at shoff_past_end_elf64 0 ELFMAG \<and>
      of_char (shoff_past_end_elf64 ! EI_CLASS) = class_byte ELFCLASS64"
    by code_simp
  have p: "page_fill 4096 64 = 4032" by (simp add: page_fill_def)
  have "is_dgsh_program (sys_with (Regular shoff_past_end_elf64)) ''prog'' = Inl OutOfBounds"
    by (rule section_table_past_mapping [where c = ELFCLASS64 and b = shoff_past_end_elf64])
      (use h v p in \<open>simp_all add: sys_with_def\<close>)
  with v show ?thesis by simp
qed




text \<open>
  C3, as amended. Where \<^verbatim>\<open>open\<close> fails, \<^verbatim>\<open>is_dgsh_program\<close> returns 0, the value it
  returns for a file that is not compatible: its result type is \<^verbatim>\<open>int\<close> and holds no
  error. Whatever the path is, a returned value is 0 or 1.
\<close>

theorem open_failure_is_false:
  "(files sys path = Unopenable \<longrightarrow> is_dgsh_program sys path = Inr 0) \<and>
   (is_dgsh_program sys path = Inr r \<longrightarrow> r = 0 \<or> r = 1)"
proof (intro conjI impI)
  assume "files sys path = Unopenable"
  then show "is_dgsh_program sys path = Inr 0" by (simp add: is_dgsh_program_def)
next
  assume "is_dgsh_program sys path = Inr r"
  then show "r = 0 \<or> r = 1" by (rule is_dgsh_program_bool)
qed

theorem open_failure_is_false_witness:
  "files (sys_with Unopenable) ''prog'' = Unopenable \<and>
   is_dgsh_program (sys_with Unopenable) ''prog'' = Inr 0"
  using open_failure_is_false [of "sys_with Unopenable" "''prog''" 0]
  by (simp add: sys_with_def)

theorem io_error_counterexample:
  "is_dgsh_program (sys_with Unopenable) ''prog'' = Inr 0 \<and>
   is_dgsh_program (sys_with (Regular plain_script)) ''prog'' = Inr 0"
proof -
  have "classify_mapped plain_script (length plain_script) = Inr 0"
    by code_simp
  then have "is_dgsh_program (sys_with (Regular plain_script)) ''prog'' = Inr 0"
    by (intro is_dgsh_program_in_bounds [where bs = plain_script]) (simp_all add: sys_with_def)
  moreover have "is_dgsh_program (sys_with Unopenable) ''prog'' = Inr 0"
    by (simp add: is_dgsh_program_def sys_with_def)
  ultimately show ?thesis by simp
qed

text \<open>
  C4, as amended. \<^verbatim>\<open>sizeof(DGSH_NAME)\<close> is 16: the 15 characters of the identifier and
  its terminator. For every well-formed ELF image, of class 1 or 2, classification returns
  true if some section named \<^verbatim>\<open>.note.ident\<close> has a first note record whose name-size field
  is 16 and whose name bytes are the identifier with its terminator, and false otherwise:
  so with another name size, 17 as well, or with one byte of the name changed, in every
  such section.
\<close>

theorem dgsh_note_decides:
  assumes "files sys path = Regular b" and "wf_elf c b"
  shows "sizeof_DGSH_NAME = 16 \<and>
         is_dgsh_program sys path =
           Inr (if \<exists>i \<in> set [0..<fld b 0 (e_shnum c)]. dgsh_note_section c b i then 1 else 0)"
proof
  show "sizeof_DGSH_NAME = 16"
    by (simp add: sizeof_DGSH_NAME_def cstr_def DGSH_NAME_def)
  have "classify_mapped b (length b) =
      Inr (if \<exists>i \<in> set [0..<fld b 0 (e_shnum c)]. dgsh_note_section c b i then 1 else 0)"
    using classify_mapped_wf [OF assms(2), of "length b"] by (simp add: Bex_def)
  with assms(1) show "is_dgsh_program sys path =
      Inr (if \<exists>i \<in> set [0..<fld b 0 (e_shnum c)]. dgsh_note_section c b i then 1 else 0)"
    by (rule is_dgsh_program_in_bounds)
qed

theorem dgsh_note_decides_witness:
  "is_dgsh_program (sys_with (Regular dgsh_elf64)) ''prog'' = Inr 1 \<and>
   is_dgsh_program (sys_with (Regular dgsh_elf32)) ''prog'' = Inr 1 \<and>
   is_dgsh_program (sys_with (Regular other_name_elf64)) ''prog'' = Inr 0"
proof -
  have f: "files (sys_with (Regular x)) ''prog'' = Regular x" for x
    by (simp add: sys_with_def)
  have y: "\<exists>i \<in> set [0..<fld dgsh_elf64 0 (e_shnum ELFCLASS64)].
      dgsh_note_section ELFCLASS64 dgsh_elf64 i"
    by code_simp
  have y32: "\<exists>i \<in> set [0..<fld dgsh_elf32 0 (e_shnum ELFCLASS32)].
      dgsh_note_section ELFCLASS32 dgsh_elf32 i"
    by code_simp
  have n: "\<not> (\<exists>i \<in> set [0..<fld other_name_elf64 0 (e_shnum ELFCLASS64)].
      dgsh_note_section ELFCLASS64 other_name_elf64 i)"
    by code_simp
  from dgsh_note_decides [OF f dgsh_elf64_wf] y dgsh_note_decides [OF f dgsh_elf32_wf] y32
    dgsh_note_decides [OF f other_name_elf64_wf] n
  show ?thesis by simp
qed

theorem name_size_17_counterexample:
  "wf_elf ELFCLASS64 namesz17_elf64 \<and>
   section_named ELFCLASS64 namesz17_elf64 1 ''.note.ident'' \<and>
   note_name_is ELFCLASS64 namesz17_elf64 1 17 (cstr DGSH_NAME) \<and>
   is_dgsh_program (sys_with (Regular namesz17_elf64)) ''prog'' = Inr 0"
proof -
  have "classify_mapped namesz17_elf64 (length namesz17_elf64) = Inr 0"
    by code_simp
  then have "is_dgsh_program (sys_with (Regular namesz17_elf64)) ''prog'' = Inr 0"
    by (intro is_dgsh_program_in_bounds [where bs = namesz17_elf64])
      (simp_all add: sys_with_def)
  moreover have "section_named ELFCLASS64 namesz17_elf64 1 ''.note.ident'' \<and>
      note_name_is ELFCLASS64 namesz17_elf64 1 17 (cstr DGSH_NAME)"
    by code_simp
  ultimately show ?thesis using namesz17_elf64_wf by simp
qed




text \<open>
  C6, as amended. A file that begins with the bytes of
  \<^verbatim>\<open>#!/bin/sh\<close>, newline, \<^verbatim>\<open>echo dgsh-wrap\<close>, newline is classified as not compatible,
  whatever follows: the token is on the second line, the search for the tokens ends at the
  first newline, and the second line does not begin with \<^verbatim>\<open>#!dgsh\<close>.
\<close>

theorem token_on_second_line_not_found:
  assumes "files sys path = Regular (wrap_on_second_line @ rest)"
  shows "is_dgsh_program sys path = Inr 0"
proof -
  let ?b = "wrap_on_second_line @ rest"
  define l where "l = (if length ?b < MAX_LINE_LEN then length ?b else MAX_LINE_LEN)"
  have l: "length wrap_on_second_line \<le> l" "l \<le> length ?b"
    by (simp_all add: l_def wrap_on_second_line_def MAX_LINE_LEN_def)
  have "is_script_dgsh_program ?b (length ?b) = Inr 0"
    unfolding is_script_dgsh_program_def Let_def l_def [symmetric]
    by (simp only: wrap_on_second_line_first_line wrap_on_second_line_magic [OF l]
        insert_iff simp_thms thenf.simps if_False if_True)
  moreover have "bytes_at ?b 0 ''#!''"
    by (simp add: bytes_at_def wrap_on_second_line_def)
  ultimately have "classify_mapped ?b (length ?b) = Inr 0"
    by (simp add: classify_mapped_script)
  with assms show ?thesis by (rule is_dgsh_program_in_bounds)
qed

theorem token_on_second_line_not_found_witness:
  "is_dgsh_program (sys_with (Regular (wrap_on_second_line @ ''exit 0''))) ''prog'' = Inr 0"
  using token_on_second_line_not_found [of "sys_with (Regular (wrap_on_second_line @ ''exit 0''))"
      "''prog''" "''exit 0''"]
  by (simp add: sys_with_def)

theorem first_line_match_counterexample:
  "is_dgsh_program (sys_with (Regular wrap_on_second_line)) ''prog'' = Inr 0"
proof -
  have "classify_mapped wrap_on_second_line (length wrap_on_second_line) = Inr 0"
    by code_simp
  then show ?thesis
    by (intro is_dgsh_program_in_bounds [where bs = wrap_on_second_line])
      (simp_all add: sys_with_def)
qed

text \<open>
  C7. For every file, of one byte or more, that begins neither with \<^verbatim>\<open>#!\<close> nor with the
  4 bytes of the ELF magic number, and for every file that begins with the magic number and
  whose class byte is neither 1 nor 2, \<^verbatim>\<open>is_dgsh_program\<close> returns 0, and no fault occurs.
  The comparisons with \<^verbatim>\<open>#!\<close> and with the magic number read 2 and 4 bytes of the
  mapping, which holds a whole page: in a file of fewer bytes they read the zero bytes
  that fill the page. Pages hold more than 4 bytes.
\<close>

theorem unrecognised_is_false:
  assumes "files sys path = Regular b" "b \<noteq> []" "4 < pagesize sys"
  shows "(\<not> bytes_at b 0 ''#!'' \<and> \<not> bytes_at b 0 ELFMAG \<longrightarrow>
            is_dgsh_program sys path = Inr 0) \<and>
         (bytes_at b 0 ELFMAG \<and> EI_CLASS < length b \<and>
          of_char (b ! EI_CLASS) \<noteq> (1::nat) \<and> of_char (b ! EI_CLASS) \<noteq> (2::nat) \<longrightarrow>
            is_dgsh_program sys path = Inr 0)"
proof (intro conjI impI)
  let ?k = "page_fill (pagesize sys) (length b)"
  let ?m = "b @ replicate ?k (CHR 0x00)"
  assume a: "\<not> bytes_at b 0 ''#!'' \<and> \<not> bytes_at b 0 ELFMAG"
  have "pagesize sys \<le> length b + ?k"
    using assms(2,3) by (intro page_fill_covers) simp_all
  with assms(3) have len: "4 < length ?m" by simp
  have s: "take (length ''#!'') ?m \<noteq> ''#!''"
    using a by (subst bytes_at_padded) simp_all
  have e: "take (length ELFMAG) ?m \<noteq> ELFMAG"
    using a by (subst bytes_at_padded) (simp_all add: ELFMAG_def)
  from s len have "memcmp0 ?m 0 ''#!'' = Inr False"
    by (simp add: memcmp0_in)
  moreover from len have "length ELFMAG \<le> length ?m" by (simp add: ELFMAG_def)
  with e have "is_elf_dgsh_program ?m = Inr 0" by (rule is_elf_not_magic [rotated])
  ultimately have "classify_mapped ?m (length b) = Inr 0"
    by (simp add: classify_mapped_def)
  then show "is_dgsh_program sys path = Inr 0"
    by (simp add: is_dgsh_program_Regular [OF assms(1,2)])
next
  assume "bytes_at b 0 ELFMAG \<and> EI_CLASS < length b \<and>
      of_char (b ! EI_CLASS) \<noteq> (1::nat) \<and> of_char (b ! EI_CLASS) \<noteq> (2::nat)"
  then have "classify_mapped b (length b) = Inr 0"
    by (simp add: classify_mapped_other_class)
  with assms(1) show "is_dgsh_program sys path = Inr 0"
    by (rule is_dgsh_program_in_bounds)
qed

theorem unrecognised_is_false_witness:
  "is_dgsh_program (sys_with (Regular short_magic)) ''prog'' = Inr 0 \<and>
   is_dgsh_program (sys_with (Regular png_blob)) ''prog'' = Inr 0 \<and>
   is_dgsh_program (sys_with (Regular elf_class_3)) ''prog'' = Inr 0"
proof -
  have f: "files (sys_with (Regular x)) ''prog'' = Regular x"
    "4 < pagesize (sys_with (Regular x))" for x
    by (simp_all add: sys_with_def)
  have n: "short_magic \<noteq> []" "png_blob \<noteq> []" "elf_class_3 \<noteq> []"
    by (simp_all add: short_magic_def png_blob_def elf_class_3_def ELFMAG_def)
  have h1: "\<not> bytes_at short_magic 0 ''#!'' \<and> \<not> bytes_at short_magic 0 ELFMAG"
    by code_simp
  have h2: "\<not> bytes_at png_blob 0 ''#!'' \<and> \<not> bytes_at png_blob 0 ELFMAG"
    by code_simp
  have h3: "bytes_at elf_class_3 0 ELFMAG \<and> EI_CLASS < length elf_class_3 \<and>
      of_char (elf_class_3 ! EI_CLASS) \<noteq> (1::nat) \<and> of_char (elf_class_3 ! EI_CLASS) \<noteq> (2::nat)"
    by code_simp
  from unrecognised_is_false [OF f(1) n(1) f(2)] h1
    unrecognised_is_false [OF f(1) n(2) f(2)] h2
    unrecognised_is_false [OF f(1) n(3) f(2)] h3
  show ?thesis by blast
qed

text \<open>
  C8. Every function of the model is total: the loops of \<^verbatim>\<open>linenstr\<close>, \<^verbatim>\<open>memchr\<close> and
  \<^verbatim>\<open>has_dgsh_section_64\<close> are recursions on \<open>hlen\<close>, on the number of bytes left and on
  \<open>shNum - i\<close>. The script scan reads the first \<open>min length 1024\<close> bytes at most: on memory
  that holds these bytes and nothing more it returns, with the same result. The loop over
  the section headers returns within \<open>shNum\<close> runs of its body, whatever the header and
  the buffer hold.
\<close>

theorem scans_are_bounded:
  "(\<exists>r. is_script_dgsh_program (take MAX_LINE_LEN data) (length data) = Inr r \<and>
        is_script_dgsh_program data (length data) = Inr r) \<and>
   has_dgsh_section_fuel shNum c shdr strTab shNum data' 0 =
     Some (has_dgsh_section_from c shdr strTab shNum data' 0)"
proof
  have w: "min (length data) MAX_LINE_LEN \<le> length data" by simp
  from is_script_in [OF w] is_script_window [OF w]
  show "\<exists>r. is_script_dgsh_program (take MAX_LINE_LEN data) (length data) = Inr r \<and>
        is_script_dgsh_program data (length data) = Inr r"
    by auto
  show "has_dgsh_section_fuel shNum c shdr strTab shNum data' 0 =
     Some (has_dgsh_section_from c shdr strTab shNum data' 0)"
    by (rule has_dgsh_section_fuel_enough) simp
qed

text \<open>
  C9, as amended. Where the run on the bytes of the file alone returns, so that it reads
  nothing outside \<open>[0, length)\<close>, classification is deterministic: the result is the same
  whatever lies in memory behind the bytes of the file, in every invocation of
  \<^verbatim>\<open>is_dgsh_program\<close> on a path with these bytes, on every system. Where the ELF walker
  follows an offset of the header outside the bytes of the file, the result depends on
  what is mapped there.
\<close>

theorem classification_deterministic:
  assumes "classify_mapped b (length b) = Inr r"
  shows "classify_mapped (b @ behind) (length b) = Inr r \<and>
         (files sys path = Regular b \<longrightarrow> is_dgsh_program sys path = Inr r) \<and>
         (files sys' path' = Regular b \<longrightarrow> is_dgsh_program sys' path' = Inr r)"
proof (intro conjI impI)
  show "classify_mapped (b @ behind) (length b) = Inr r"
    using classify_mapped_stays assms by (rule staysD)
next
  assume "files sys path = Regular b"
  then show "is_dgsh_program sys path = Inr r"
    using assms by (rule is_dgsh_program_in_bounds)
next
  assume "files sys' path' = Regular b"
  then show "is_dgsh_program sys' path' = Inr r"
    using assms by (rule is_dgsh_program_in_bounds)
qed

theorem classification_deterministic_witness:
  "classify_mapped (marker_script @ ''junk'') (length marker_script) = Inr 1 \<and>
   is_dgsh_program (sys_with (Regular marker_script)) ''prog'' = Inr 1 \<and>
   is_dgsh_program (sys_16k (Regular marker_script)) ''other'' = Inr 1"
proof -
  have c: "classify_mapped marker_script (length marker_script) = Inr 1"
    by code_simp
  have f: "files (sys_with (Regular marker_script)) ''prog'' = Regular marker_script"
    "files (sys_16k (Regular marker_script)) ''other'' = Regular marker_script"
    by (simp_all add: sys_with_def sys_16k_def)
  from classification_deterministic [OF c, of "''junk''" "sys_with (Regular marker_script)"
      "''prog''" "sys_16k (Regular marker_script)" "''other''"] f
  show ?thesis by blast
qed

text \<open>
  The same content with two results: the header of 64 bytes whose \<^verbatim>\<open>e_shoff\<close> is 8192,
  with pages of 4096 bytes, where offset 8216 is not mapped, and with pages of 16384 bytes,
  where it holds a zero byte of the page.
\<close>

theorem same_content_counterexample:
  "is_dgsh_program (sys_with (Regular shoff_past_end_elf64)) ''prog'' = Inl OutOfBounds \<and>
   is_dgsh_program (sys_16k (Regular shoff_past_end_elf64)) ''prog'' = Inr 0"
  using shoff_past_end_elf64_small_pages shoff_past_end_elf64_large_pages by simp

text \<open>
  C10. \<^verbatim>\<open>linenstr\<close> reports a token at offset \<open>p\<close> only if \<open>p + length token < hlen\<close>: one
  byte of the window at least follows the token. So the occurrence whose last byte is the
  last byte of the window is never the one reported; and where the token lies at no
  offset with a byte of the window after it, as when the window ends with its only
  occurrence, the search returns \<^verbatim>\<open>NULL\<close>, which counts as false in
  \<^verbatim>\<open>is_script_dgsh_program\<close>.
\<close>

theorem linenstr_needs_trailing_byte:
  "(linenstr data needle hlen = Inr (Some p) \<longrightarrow>
      p + length needle < hlen \<and> bytes_at data p needle) \<and>
   (length needle \<le> hlen \<longrightarrow>
      linenstr data needle hlen \<noteq> Inr (Some (hlen - length needle))) \<and>
   (hlen \<le> length data \<and> (\<forall>q \<in> {0..<hlen - length needle}. \<not> bytes_at data q needle) \<longrightarrow>
      linenstr data needle hlen = Inr None)"
proof (intro conjI impI)
  assume "linenstr data needle hlen = Inr (Some p)"
  then have "linenstr_loop data 0 needle hlen = Inr (Some p)" by (simp add: linenstr_def)
  from linenstr_loop_Some [OF this]
  show "p + length needle < hlen" and "bytes_at data p needle"
    by (simp_all add: bytes_at_def)
next
  assume le: "length needle \<le> hlen"
  show "linenstr data needle hlen \<noteq> Inr (Some (hlen - length needle))"
  proof
    assume "linenstr data needle hlen = Inr (Some (hlen - length needle))"
    then have "linenstr_loop data 0 needle hlen = Inr (Some (hlen - length needle))"
      by (simp add: linenstr_def)
    from linenstr_loop_Some [OF this] le show False by simp
  qed
next
  assume a: "hlen \<le> length data \<and> (\<forall>q \<in> {0..<hlen - length needle}. \<not> bytes_at data q needle)"
  have "linenstr_loop data 0 needle hlen = Inr None"
  proof (rule linenstr_loop_no_match)
    show "0 + hlen \<le> length data" using a by simp
    show "\<forall>q. 0 \<le> q \<and> q + length needle < 0 + hlen \<longrightarrow>
        take (length needle) (drop q data) \<noteq> needle"
    proof (intro allI impI)
      fix q assume q: "0 \<le> q \<and> q + length needle < 0 + hlen"
      then have "q \<in> {0..<hlen - length needle}" by auto
      with a have "\<not> bytes_at data q needle" by blast
      moreover from q a have "q + length needle \<le> length data" by simp
      ultimately show "take (length needle) (drop q data) \<noteq> needle"
        by (simp add: bytes_at_def)
    qed
  qed
  then show "linenstr data needle hlen = Inr None" by (simp add: linenstr_def)
qed

theorem linenstr_needs_trailing_byte_witness:
  "linenstr (wrap_at_end @ '' '') ''dgsh-wrap'' 20 = Inr (Some 10) \<and>
   10 + length ''dgsh-wrap'' < (20::nat) \<and>
   bytes_at wrap_at_end 10 ''dgsh-wrap'' \<and> 10 + length ''dgsh-wrap'' = length wrap_at_end \<and>
   linenstr wrap_at_end ''dgsh-wrap'' 19 = Inr None \<and>
   is_script_dgsh_program wrap_at_end (length wrap_at_end) = Inr 0"
proof -
  have c: "is_script_dgsh_program wrap_at_end (length wrap_at_end) = Inr 0"
    by code_simp
  have s: "linenstr (wrap_at_end @ '' '') ''dgsh-wrap'' 20 = Inr (Some 10)"
    by code_simp
  have h: "19 \<le> length wrap_at_end \<and>
      (\<forall>q \<in> {0..<19 - length ''dgsh-wrap''}. \<not> bytes_at wrap_at_end q ''dgsh-wrap'')"
    by code_simp
  have e: "bytes_at wrap_at_end 10 ''dgsh-wrap'' \<and> 10 + length ''dgsh-wrap'' = length wrap_at_end"
    by code_simp
  from linenstr_needs_trailing_byte [of "wrap_at_end @ '' ''" "''dgsh-wrap''" 20 10] s
    linenstr_needs_trailing_byte [of wrap_at_end "''dgsh-wrap''" 19 0] h e c
  show ?thesis by simp
qed

end
